theory Spec2Isabelle
  imports Complex_Main "HOL-Library.Word" "HOL-Library.AList" "HOL-Library.Monad_Syntax"
begin

unbundle bit_operations_syntax

section \<open>Bytes and the two library functions of the Content Addresser\<close>

text \<open>
  \<^verbatim>\<open>assemble_metadata\<close> identifies a file by
  \<^verbatim>\<open>b32encode(digest.digest()).decode("utf-8").lower()\<close>, where \<^verbatim>\<open>digest\<close> is a
  \<^verbatim>\<open>hashlib.sha256()\<close> object fed with the file's bytes. Both library functions are
  written out here: SHA-256 after FIPS 180-4 and \<^verbatim>\<open>b32encode\<close> after CPython's
  \<^verbatim>\<open>base64.py\<close>.
\<close>

type_synonym byte = "8 word"
type_synonym bytes = "byte list"
type_synonym u32 = "32 word"

text \<open>Slices \<^verbatim>\<open>s[i : i + n]\<close> for \<^verbatim>\<open>i in range(0, len(s), n)\<close>.\<close>

function chunks :: "nat \<Rightarrow> 'a list \<Rightarrow> 'a list list" where
  "chunks n xs = (if n = 0 \<or> xs = [] then [] else take n xs # chunks n (drop n xs))"
  by pat_completeness auto
termination
  by (relation "measure (\<lambda>(n, xs). length xs)") auto

declare chunks.simps [simp del]

subsection \<open>SHA-256\<close>

definition rotr :: "nat \<Rightarrow> u32 \<Rightarrow> u32" where
  "rotr n x = drop_bit n x OR push_bit (32 - n) x"

definition Ch :: "u32 \<Rightarrow> u32 \<Rightarrow> u32 \<Rightarrow> u32" where
  "Ch x y z = (x AND y) XOR (NOT x AND z)"

definition Maj :: "u32 \<Rightarrow> u32 \<Rightarrow> u32 \<Rightarrow> u32" where
  "Maj x y z = (x AND y) XOR (x AND z) XOR (y AND z)"

definition bsig0 :: "u32 \<Rightarrow> u32" where
  "bsig0 x = rotr 2 x XOR rotr 13 x XOR rotr 22 x"

definition bsig1 :: "u32 \<Rightarrow> u32" where
  "bsig1 x = rotr 6 x XOR rotr 11 x XOR rotr 25 x"

definition ssig0 :: "u32 \<Rightarrow> u32" where
  "ssig0 x = rotr 7 x XOR rotr 18 x XOR drop_bit 3 x"

definition ssig1 :: "u32 \<Rightarrow> u32" where
  "ssig1 x = rotr 17 x XOR rotr 19 x XOR drop_bit 10 x"

definition sha256_K :: "u32 list" where
  "sha256_K =
    [0x428A2F98, 0x71374491, 0xB5C0FBCF, 0xE9B5DBA5,
     0x3956C25B, 0x59F111F1, 0x923F82A4, 0xAB1C5ED5,
     0xD807AA98, 0x12835B01, 0x243185BE, 0x550C7DC3,
     0x72BE5D74, 0x80DEB1FE, 0x9BDC06A7, 0xC19BF174,
     0xE49B69C1, 0xEFBE4786, 0x0FC19DC6, 0x240CA1CC,
     0x2DE92C6F, 0x4A7484AA, 0x5CB0A9DC, 0x76F988DA,
     0x983E5152, 0xA831C66D, 0xB00327C8, 0xBF597FC7,
     0xC6E00BF3, 0xD5A79147, 0x06CA6351, 0x14292967,
     0x27B70A85, 0x2E1B2138, 0x4D2C6DFC, 0x53380D13,
     0x650A7354, 0x766A0ABB, 0x81C2C92E, 0x92722C85,
     0xA2BFE8A1, 0xA81A664B, 0xC24B8B70, 0xC76C51A3,
     0xD192E819, 0xD6990624, 0xF40E3585, 0x106AA070,
     0x19A4C116, 0x1E376C08, 0x2748774C, 0x34B0BCB5,
     0x391C0CB3, 0x4ED8AA4A, 0x5B9CCA4F, 0x682E6FF3,
     0x748F82EE, 0x78A5636F, 0x84C87814, 0x8CC70208,
     0x90BEFFFA, 0xA4506CEB, 0xBEF9A3F7, 0xC67178F2]"

text \<open>The eight working variables \<open>a\<close> .. \<open>h\<close>, also the hash value between blocks.\<close>

type_synonym hstate = "u32 \<times> u32 \<times> u32 \<times> u32 \<times> u32 \<times> u32 \<times> u32 \<times> u32"

definition sha256_H0 :: hstate where
  "sha256_H0 =
    (0x6A09E667, 0xBB67AE85, 0x3C6EF372, 0xA54FF53A,
     0x510E527F, 0x9B05688C, 0x1F83D9AB, 0x5BE0CD19)"

definition be32 :: "bytes \<Rightarrow> u32" where
  "be32 bs = foldl (\<lambda>acc b. push_bit 8 acc OR ucast b) 0 bs"

definition be32_bytes :: "u32 \<Rightarrow> bytes" where
  "be32_bytes w = [ucast (drop_bit 24 w), ucast (drop_bit 16 w), ucast (drop_bit 8 w), ucast w]"

definition be64_bytes :: "64 word \<Rightarrow> bytes" where
  "be64_bytes n = map (\<lambda>i. ucast (drop_bit (8 * (7 - i)) n)) [0 ..< 8]"

text \<open>Padding: a one bit, zero bits up to 56 mod 64 bytes, the bit length in 64 bits.\<close>

definition sha256_pad :: "bytes \<Rightarrow> bytes" where
  "sha256_pad m =
     m @ [0x80] @ replicate ((64 - (length m + 9) mod 64) mod 64) 0
       @ be64_bytes (8 * word_of_nat (length m))"

text \<open>The message schedule: sixteen words of the block, extended to sixty-four.\<close>

fun extend_schedule :: "nat \<Rightarrow> u32 list \<Rightarrow> u32 list" where
  "extend_schedule 0 w = w"
| "extend_schedule (Suc n) w =
     (let t = length w
      in extend_schedule n
           (w @ [ssig1 (w ! (t - 2)) + w ! (t - 7) + ssig0 (w ! (t - 15)) + w ! (t - 16)]))"

definition schedule :: "bytes \<Rightarrow> u32 list" where
  "schedule block = extend_schedule 48 (map be32 (chunks 4 block))"

definition sha256_round :: "hstate \<Rightarrow> u32 \<times> u32 \<Rightarrow> hstate" where
  "sha256_round s kw =
     (case s of (a, b, c, d, e, f, g, h) \<Rightarrow>
        (let t1 = h + bsig1 e + Ch e f g + fst kw + snd kw;
             t2 = bsig0 a + Maj a b c
         in (t1 + t2, a, b, c, d + t1, e, f, g)))"

definition hstate_add :: "hstate \<Rightarrow> hstate \<Rightarrow> hstate" where
  "hstate_add s t =
     (case s of (a, b, c, d, e, f, g, h) \<Rightarrow>
      case t of (a', b', c', d', e', f', g', h') \<Rightarrow>
        (a + a', b + b', c + c', d + d', e + e', f + f', g + g', h + h'))"

definition sha256_compress :: "hstate \<Rightarrow> bytes \<Rightarrow> hstate" where
  "sha256_compress s block = hstate_add s (foldl sha256_round s (zip sha256_K (schedule block)))"

definition hstate_bytes :: "hstate \<Rightarrow> bytes" where
  "hstate_bytes s =
     (case s of (a, b, c, d, e, f, g, h) \<Rightarrow> concat (map be32_bytes [a, b, c, d, e, f, g, h]))"

definition sha256 :: "bytes \<Rightarrow> bytes" where
  "sha256 m = hstate_bytes (foldl sha256_compress sha256_H0 (chunks 64 (sha256_pad m)))"

subsection \<open>Base 32\<close>

definition b32alphabet :: string where
  "b32alphabet = ''ABCDEFGHIJKLMNOPQRSTUVWXYZ234567''"

text \<open>
  \<^verbatim>\<open>_b32tab2[alphabet] = [a + b for a in b32tab for b in b32tab]\<close>: entry \<open>i\<close> is the pair of
  characters for the ten bits \<open>i\<close>.
\<close>

definition b32tab2 :: "int \<Rightarrow> string" where
  "b32tab2 i = [b32alphabet ! nat (i div 32), b32alphabet ! nat (i mod 32)]"

text \<open>\<^verbatim>\<open>int.from_bytes(s[i : i + 5])\<close>, big endian.\<close>

definition from_bytes :: "bytes \<Rightarrow> int" where
  "from_bytes bs = foldl (\<lambda>acc b. 256 * acc + uint b) 0 bs"

definition b32quantum :: "bytes \<Rightarrow> string" where
  "b32quantum q =
     (let c = from_bytes q
      in b32tab2 (drop_bit 30 c) @ b32tab2 (drop_bit 20 c AND 0x3ff)
           @ b32tab2 (drop_bit 10 c AND 0x3ff) @ b32tab2 (c AND 0x3ff))"

text \<open>\<^verbatim>\<open>encoded[-k:] = b'=' * k\<close> on a bytearray of at least \<open>k\<close> characters.\<close>

definition set_tail :: "nat \<Rightarrow> string \<Rightarrow> string" where
  "set_tail k enc = take (length enc - k) enc @ replicate k (CHR ''='')"

definition b32encode :: "bytes \<Rightarrow> string" where
  "b32encode s =
     (let leftover = length s mod 5;
          s' = (if leftover \<noteq> 0 then s @ replicate (5 - leftover) 0 else s);
          encoded = concat (map b32quantum (chunks 5 s'))
      in if leftover = 1 then set_tail 6 encoded
         else if leftover = 2 then set_tail 4 encoded
         else if leftover = 3 then set_tail 3 encoded
         else if leftover = 4 then set_tail 1 encoded
         else encoded)"

text \<open>\<^verbatim>\<open>str.lower\<close> on the ASCII characters \<^verbatim>\<open>b32encode\<close> produces.\<close>

definition lower_char :: "char \<Rightarrow> char" where
  "lower_char c =
     (case map_of (zip ''ABCDEFGHIJKLMNOPQRSTUVWXYZ'' ''abcdefghijklmnopqrstuvwxyz'') c of
        Some l \<Rightarrow> l
      | None \<Rightarrow> c)"

definition lower :: "string \<Rightarrow> string" where
  "lower s = map lower_char s"

subsection \<open>The hash object and the read loop\<close>

text \<open>
  A \<^verbatim>\<open>hashlib\<close> object is modelled by the bytes fed to it so far: \<^verbatim>\<open>update\<close> appends,
  \<^verbatim>\<open>digest\<close> hashes what has been fed (the documented contract of \<^verbatim>\<open>update\<close>: repeated
  calls are equivalent to one call with the concatenation).
\<close>

type_synonym hash_obj = bytes

definition sha256_new :: hash_obj where
  "sha256_new = []"

definition update :: "hash_obj \<Rightarrow> bytes \<Rightarrow> hash_obj" where
  "update h bs = h @ bs"

definition digest :: "hash_obj \<Rightarrow> bytes" where
  "digest h = sha256 h"

definition DIGEST_READ_BUFFER_LENGTH :: nat where
  "DIGEST_READ_BUFFER_LENGTH = 512 * 2 ^ 4"

definition FILENAME_DIGEST_TRUNCATION_LENGTH :: nat where
  "FILENAME_DIGEST_TRUNCATION_LENGTH = 8"

text \<open>
  What the Content Addresser does to the file system, in order: every
  \<^verbatim>\<open>file_handle.read\<close> with the bytes it returned (the last one empty), and the rename.
\<close>

datatype event = Read bytes | Rename string string

text \<open>
  \<^verbatim>\<open>while (read_bytes := file_handle.read(DIGEST_READ_BUFFER_LENGTH)) != b"":
      digest.update(read_bytes)\<close>
  The file handle is the list of bytes not read yet.
\<close>

function read_loop :: "bytes \<Rightarrow> hash_obj \<Rightarrow> event list \<Rightarrow> hash_obj \<times> event list" where
  "read_loop file_handle h evs =
     (let read_bytes = take DIGEST_READ_BUFFER_LENGTH file_handle
      in if read_bytes \<noteq> []
         then read_loop (drop DIGEST_READ_BUFFER_LENGTH file_handle)
                (update h read_bytes) (evs @ [Read read_bytes])
         else (h, evs @ [Read []]))"
  by pat_completeness auto
termination
  by (relation "measure (\<lambda>(file_handle, h, evs). length file_handle)")
     (auto simp: DIGEST_READ_BUFFER_LENGTH_def)

declare read_loop.simps [simp del]

text \<open>\<^verbatim>\<open>file_id = b32encode(digest.digest()).decode("utf-8").lower()\<close> for a file's bytes.\<close>

definition file_id_of :: "bytes \<Rightarrow> string" where
  "file_id_of content = lower (b32encode (digest (fst (read_loop content sha256_new []))))"

definition endswith :: "'a list \<Rightarrow> 'a list \<Rightarrow> bool" where
  "endswith s suf = (length suf \<le> length s \<and> drop (length s - length suf) s = suf)"

section \<open>The Content Addresser on a directory\<close>

datatype error =
    AssertionError
  | KeyError string
  | TypeError
  | AttributeError
  | ValidationError
  | FileNotFoundError
  | IsADirectoryError
  | NotADirectoryError
  | OSError
  | MalformedLog

text \<open>
  The output directory is a tree: a directory is the list of its entries, in the order
  \<^verbatim>\<open>os.listdir\<close> returns them.
\<close>

datatype node = File bytes | Dir "(string \<times> node) list"

type_synonym listing = "(string \<times> node) list"

definition listdir :: "listing \<Rightarrow> string list" where
  "listdir d = map fst d"

text \<open>
  \<^verbatim>\<open>Path.rename\<close> inside one directory, with the POSIX rules of \<^verbatim>\<open>os.rename\<close>: renaming
  a file to its own name does nothing, an existing file at the target is replaced without
  notice, a directory at the target refuses a file.
\<close>

definition rename :: "string \<Rightarrow> string \<Rightarrow> listing \<Rightarrow> error + listing" where
  "rename src dst d =
     (case map_of d src of
        None \<Rightarrow> Inl FileNotFoundError
      | Some n \<Rightarrow>
          if src = dst then Inr d
          else (case (n, map_of d dst) of
                  (File _, Some (Dir _)) \<Rightarrow> Inl IsADirectoryError
                | (Dir _, Some (File _)) \<Rightarrow> Inl NotADirectoryError
                | (Dir _, Some (Dir (_ # _))) \<Rightarrow> Inl OSError
                | _ \<Rightarrow> Inr (AList.update dst n (AList.delete src d))))"

text \<open>
  The body of the inner loop of \<^verbatim>\<open>assemble_metadata\<close> up to the rename, for the file
  \<open>file\<close> of the directory \<open>d\<close> (whose path is \<open>subfolder\<close>): digest, the two assertions,
  the new name, the rename. The result is the events in order, and either the error raised or
  \<open>(file_id, file_name, d')\<close> with \<open>d'\<close> the directory after the rename. The digest function of
  the hash object is a parameter, so that the assertions are seen to guard the rename for
  whatever the digest returns; the code's is \<^verbatim>\<open>sha256\<close>.
\<close>

definition content_address_with ::
  "(hash_obj \<Rightarrow> bytes) \<Rightarrow> string \<Rightarrow> string \<Rightarrow> listing
     \<Rightarrow> event list \<times> (error + string \<times> string \<times> listing)" where
  "content_address_with dg subfolder file d =
     (case map_of d file of
        None \<Rightarrow> ([], Inl FileNotFoundError)
      | Some (Dir _) \<Rightarrow> ([], Inl IsADirectoryError)
      | Some (File content) \<Rightarrow>
          (case read_loop content sha256_new [] of (h, evs) \<Rightarrow>
             (let file_id = lower (b32encode (dg h))
              in if length file_id \<noteq> 56 then (evs, Inl AssertionError)
                 else if \<not> endswith file_id ''===='' then (evs, Inl AssertionError)
                 else (let ext = ''csv'';
                           file_name = take 8 file_id @ ''.'' @ ext
                       in case rename file file_name d of
                            Inl e \<Rightarrow> (evs, Inl e)
                          | Inr d' \<Rightarrow>
                              (evs @ [Rename (subfolder @ ''/'' @ file)
                                        (subfolder @ ''/'' @ file_name)],
                               Inr (file_id, file_name, d'))))))"

definition content_address ::
  "string \<Rightarrow> string \<Rightarrow> listing \<Rightarrow> event list \<times> (error + string \<times> string \<times> listing)" where
  "content_address = content_address_with digest"

text \<open>The bytes the \<^verbatim>\<open>read\<close> calls of a run of events returned, concatenated.\<close>

fun bytes_read :: "event list \<Rightarrow> bytes" where
  "bytes_read [] = []"
| "bytes_read (Read bs # evs) = bs @ bytes_read evs"
| "bytes_read (Rename _ _ # evs) = bytes_read evs"

section \<open>Device configuration (\<^verbatim>\<open>deviceconfig.py\<close>)\<close>

text \<open>
  The raw device configuration is what \<^verbatim>\<open>json\<close> parsing gives: \<^verbatim>\<open>None\<close>, booleans,
  integers, floats (the real number a finite float denotes; no arithmetic is done on them),
  strings, lists, and dictionaries in insertion order.
\<close>

datatype pyval =
    PNone
  | PBool bool
  | PInt int
  | PFloat real
  | PStr string
  | PList "pyval list"
  | PDict "(string \<times> pyval) list"

type_synonym pydict = "(string \<times> pyval) list"

text \<open>Python's truth value of an object, as \<^verbatim>\<open>or\<close> and \<^verbatim>\<open>if\<close> test it.\<close>

fun truthy :: "pyval \<Rightarrow> bool" where
  "truthy PNone = False"
| "truthy (PBool b) = b"
| "truthy (PInt i) = (i \<noteq> 0)"
| "truthy (PFloat x) = (x \<noteq> 0)"
| "truthy (PStr s) = (s \<noteq> [])"
| "truthy (PList xs) = (xs \<noteq> [])"
| "truthy (PDict d) = (d \<noteq> [])"

text \<open>
  How the validation library reads a raw value for a field annotated \<^verbatim>\<open>int\<close>,
  \<^verbatim>\<open>float\<close>, \<^verbatim>\<open>bool\<close> or \<^verbatim>\<open>str\<close> (\<open>None\<close>: the value is rejected). The coercion
  rules belong to the library, not to this repository: they are a parameter, and every
  theorem below holds for all of them.
\<close>

record validators =
  int_field :: "pyval \<Rightarrow> int option"
  float_field :: "pyval \<Rightarrow> real option"
  bool_field :: "pyval \<Rightarrow> bool option"
  str_field :: "pyval \<Rightarrow> string option"

text \<open>The validators that accept exactly the values of the annotated type.\<close>

definition exact_validators :: validators where
  "exact_validators =
     \<lparr>int_field = (\<lambda>v. case v of PInt i \<Rightarrow> Some i | _ \<Rightarrow> None),
      float_field = (\<lambda>v. case v of PFloat x \<Rightarrow> Some x | _ \<Rightarrow> None),
      bool_field = (\<lambda>v. case v of PBool b \<Rightarrow> Some b | _ \<Rightarrow> None),
      str_field = (\<lambda>v. case v of PStr s \<Rightarrow> Some s | _ \<Rightarrow> None)\<rparr>"

text \<open>A required field: the key must be present and its value must validate.\<close>

definition required :: "(pyval \<Rightarrow> 'a option) \<Rightarrow> (string \<Rightarrow> pyval option) \<Rightarrow> string \<Rightarrow> 'a option" where
  "required f lookup k = Option.bind (lookup k) f"

text \<open>\<^verbatim>\<open>Optional[float] = None\<close>: absent or \<^verbatim>\<open>None\<close> gives \<^verbatim>\<open>None\<close>.\<close>

definition optional_float ::
  "validators \<Rightarrow> (string \<Rightarrow> pyval option) \<Rightarrow> string \<Rightarrow> real option option" where
  "optional_float V lookup k =
     (case lookup k of
        None \<Rightarrow> Some None
      | Some PNone \<Rightarrow> Some None
      | Some v \<Rightarrow> map_option Some (float_field V v))"

text \<open>\<^verbatim>\<open>class Component(BaseModel)\<close> with \<^verbatim>\<open>ConfigDict(extra="allow")\<close>.\<close>

record component =
  name :: string
  odr :: int
  fs :: "real option"
  enable :: bool
  samples_per_ts :: int
  dim :: int
  ioffset :: real
  measodr :: real
  usb_dps :: int
  sd_dps :: int
  sensitivity :: real
  data_type :: string
  sensor_category :: int
  c_type :: int
  stream_id :: int
  ep_id :: int
  extra :: pydict

definition Component_fields :: "string list" where
  "Component_fields =
     [''name'', ''odr'', ''fs'', ''enable'', ''samples_per_ts'', ''dim'', ''ioffset'',
      ''measodr'', ''usb_dps'', ''sd_dps'', ''sensitivity'', ''data_type'',
      ''sensor_category'', ''c_type'', ''stream_id'', ''ep_id'']"

text \<open>The declared fields, read through \<open>lookup\<close>; the extra fields are given.\<close>

definition Component_declared ::
  "validators \<Rightarrow> (string \<Rightarrow> pyval option) \<Rightarrow> pydict \<Rightarrow> component option" where
  "Component_declared V lookup ex =
     do {
       v_name \<leftarrow> required (str_field V) lookup ''name'';
       v_odr \<leftarrow> required (int_field V) lookup ''odr'';
       v_fs \<leftarrow> optional_float V lookup ''fs'';
       v_enable \<leftarrow> required (bool_field V) lookup ''enable'';
       v_samples_per_ts \<leftarrow> required (int_field V) lookup ''samples_per_ts'';
       v_dim \<leftarrow> required (int_field V) lookup ''dim'';
       v_ioffset \<leftarrow> required (float_field V) lookup ''ioffset'';
       v_measodr \<leftarrow> required (float_field V) lookup ''measodr'';
       v_usb_dps \<leftarrow> required (int_field V) lookup ''usb_dps'';
       v_sd_dps \<leftarrow> required (int_field V) lookup ''sd_dps'';
       v_sensitivity \<leftarrow> required (float_field V) lookup ''sensitivity'';
       v_data_type \<leftarrow> required (str_field V) lookup ''data_type'';
       v_sensor_category \<leftarrow> required (int_field V) lookup ''sensor_category'';
       v_c_type \<leftarrow> required (int_field V) lookup ''c_type'';
       v_stream_id \<leftarrow> required (int_field V) lookup ''stream_id'';
       v_ep_id \<leftarrow> required (int_field V) lookup ''ep_id'';
       Some \<lparr>name = v_name, odr = v_odr, fs = v_fs, enable = v_enable,
             samples_per_ts = v_samples_per_ts, dim = v_dim, ioffset = v_ioffset,
             measodr = v_measodr, usb_dps = v_usb_dps, sd_dps = v_sd_dps,
             sensitivity = v_sensitivity, data_type = v_data_type,
             sensor_category = v_sensor_category, c_type = v_c_type,
             stream_id = v_stream_id, ep_id = v_ep_id, extra = ex\<rparr>
     }"

text \<open>
  \<^verbatim>\<open>Component.model_validate(item)\<close> for a dictionary: every declared field validates or
  the call raises; with \<^verbatim>\<open>extra="allow"\<close> the keys that are no declared field are kept,
  with their values, in the record.
\<close>

definition Component_model_validate :: "validators \<Rightarrow> pydict \<Rightarrow> error + component" where
  "Component_model_validate V item =
     (case Component_declared V (map_of item)
             (filter (\<lambda>(k, v). k \<notin> set Component_fields) item) of
        None \<Rightarrow> Inl ValidationError
      | Some c \<Rightarrow> Inr c)"

text \<open>
  \<^verbatim>\<open>def name_mapping(key, mapping_value): mapping_value["name"] = key; return mapping_value\<close>.
  Item assignment on a value that is no dictionary raises.
\<close>

fun name_mapping :: "string \<Rightarrow> pyval \<Rightarrow> error + pydict" where
  "name_mapping key (PDict mapping_value) = Inr (AList.update ''name'' (PStr key) mapping_value)"
| "name_mapping key _ = Inl TypeError"

text \<open>A comprehension whose element expression can raise: the first error ends it.\<close>

fun collect :: "('a \<Rightarrow> error + 'b) \<Rightarrow> 'a list \<Rightarrow> error + 'b list" where
  "collect f [] = Inr []"
| "collect f (x # xs) =
     (case f x of
        Inl e \<Rightarrow> Inl e
      | Inr y \<Rightarrow> (case collect f xs of Inl e \<Rightarrow> Inl e | Inr ys \<Rightarrow> Inr (y # ys)))"

text \<open>
  \<^verbatim>\<open>tuple(name_mapping(key, value) for key, value in mapping.items())\<close>; a value without
  \<^verbatim>\<open>items\<close> raises.
\<close>

fun to_named_sequence :: "pyval \<Rightarrow> error + pydict list" where
  "to_named_sequence (PDict mapping) = collect (\<lambda>(key, v). name_mapping key v) mapping"
| "to_named_sequence _ = Inl AttributeError"

text \<open>
  \<^verbatim>\<open>class Device(BaseModel)\<close> of \<^verbatim>\<open>deviceconfig.py\<close> (imported by \<^verbatim>\<open>__init__.py\<close> under the
  name \<^verbatim>\<open>DeviceConfig\<close>), with \<^verbatim>\<open>extra="allow"\<close>; \<^verbatim>\<open>component_data\<close> is read from the key
  \<^verbatim>\<open>components\<close>.
\<close>

record Device =
  board_id :: int
  fw_id :: int
  component_data :: "pyval list"
  device_extra :: pydict

definition Device_fields :: "string list" where
  "Device_fields = [''board_id'', ''fw_id'', ''components'']"

text \<open>\<^verbatim>\<open>Sequence[Any]\<close>: a list, whatever its elements.\<close>

definition sequence_any :: "pyval \<Rightarrow> pyval list option" where
  "sequence_any v = (case v of PList xs \<Rightarrow> Some xs | _ \<Rightarrow> None)"

definition Device_declared ::
  "validators \<Rightarrow> (string \<Rightarrow> pyval option) \<Rightarrow> pydict \<Rightarrow> Device option" where
  "Device_declared V lookup ex =
     do {
       v_board_id \<leftarrow> required (int_field V) lookup ''board_id'';
       v_fw_id \<leftarrow> required (int_field V) lookup ''fw_id'';
       v_components \<leftarrow> required sequence_any lookup ''components'';
       Some \<lparr>board_id = v_board_id, fw_id = v_fw_id, component_data = v_components,
             device_extra = ex\<rparr>
     }"

definition Device_model_validate :: "validators \<Rightarrow> pyval \<Rightarrow> error + Device" where
  "Device_model_validate V raw =
     (case raw of
        PDict item \<Rightarrow>
          (case Device_declared V (map_of item)
                  (filter (\<lambda>(k, v). k \<notin> set Device_fields) item) of
             None \<Rightarrow> Inl ValidationError
           | Some d \<Rightarrow> Inr d)
      | _ \<Rightarrow> Inl ValidationError)"

text \<open>
  The condition of the generator in \<^verbatim>\<open>get_components\<close>:
  \<^verbatim>\<open>"odr" in item and ((not filter_disabled) or item["enable"])\<close>. The subscription raises
  \<^verbatim>\<open>KeyError\<close> when it is reached and the key is missing.
\<close>

definition condition :: "bool \<Rightarrow> pydict \<Rightarrow> error + bool" where
  "condition filter_disabled item =
     (if map_of item ''odr'' = None then Inr False
      else if \<not> filter_disabled then Inr True
      else (case map_of item ''enable'' of
              None \<Rightarrow> Inl (KeyError ''enable'')
            | Some e \<Rightarrow> Inr (truthy e)))"

text \<open>The inner \<^verbatim>\<open>for item in to_named_sequence(mapping) if ...\<close>.\<close>

fun components_of :: "validators \<Rightarrow> bool \<Rightarrow> pydict list \<Rightarrow> error + component list" where
  "components_of V filter_disabled [] = Inr []"
| "components_of V filter_disabled (item # items) =
     (case condition filter_disabled item of
        Inl e \<Rightarrow> Inl e
      | Inr False \<Rightarrow> components_of V filter_disabled items
      | Inr True \<Rightarrow>
          (case Component_model_validate V item of
             Inl e \<Rightarrow> Inl e
           | Inr c \<Rightarrow>
               (case components_of V filter_disabled items of
                  Inl e \<Rightarrow> Inl e
                | Inr cs \<Rightarrow> Inr (c # cs))))"

text \<open>The outer \<^verbatim>\<open>for mapping in self.component_data\<close>.\<close>

fun components_of_mappings :: "validators \<Rightarrow> bool \<Rightarrow> pyval list \<Rightarrow> error + component list" where
  "components_of_mappings V filter_disabled [] = Inr []"
| "components_of_mappings V filter_disabled (mapping # mappings) =
     (case to_named_sequence mapping of
        Inl e \<Rightarrow> Inl e
      | Inr items \<Rightarrow>
          (case components_of V filter_disabled items of
             Inl e \<Rightarrow> Inl e
           | Inr cs \<Rightarrow>
               (case components_of_mappings V filter_disabled mappings of
                  Inl e \<Rightarrow> Inl e
                | Inr cs' \<Rightarrow> Inr (cs @ cs'))))"

definition get_components :: "validators \<Rightarrow> Device \<Rightarrow> bool \<Rightarrow> error + component list" where
  "get_components V self filter_disabled =
     components_of_mappings V filter_disabled (component_data self)"

text \<open>
  The validation library's reading of a \<^verbatim>\<open>bool\<close> field in its default (lax) mode: a
  boolean as it is, the numbers 0 and 1, and, whatever their case, the strings
  \<^verbatim>\<open>0 off f false n no\<close> as \<^verbatim>\<open>False\<close> and \<^verbatim>\<open>1 on t true y yes\<close> as \<^verbatim>\<open>True\<close>.
\<close>

definition lax_bool :: "pyval \<Rightarrow> bool option" where
  "lax_bool v =
     (case v of
        PBool b \<Rightarrow> Some b
      | PInt i \<Rightarrow> if i = 0 then Some False else if i = 1 then Some True else None
      | PFloat x \<Rightarrow> if x = 0 then Some False else if x = 1 then Some True else None
      | PStr s \<Rightarrow>
          if lower s \<in> set [''0'', ''off'', ''f'', ''false'', ''n'', ''no''] then Some False
          else if lower s \<in> set [''1'', ''on'', ''t'', ''true'', ''y'', ''yes''] then Some True
          else None
      | _ \<Rightarrow> None)"

text \<open>Validators that read \<^verbatim>\<open>bool\<close> fields so, and the other fields exactly.\<close>

definition lax_bool_validators :: validators where
  "lax_bool_validators = exact_validators\<lparr>bool_field := lax_bool\<rparr>"

text \<open>
  A device configuration for the examples: an enabled component \<^verbatim>\<open>accelerometer\<close>, a
  disabled component \<^verbatim>\<open>gyroscope\<close>, an entry \<^verbatim>\<open>board_info\<close> with no sampling rate, and
  a field outside the schema in each component and in the device.
\<close>

definition accelerometer_attrs :: pydict where
  "accelerometer_attrs =
     [(''odr'', PInt 104), (''fs'', PFloat 16), (''enable'', PBool True),
      (''samples_per_ts'', PInt 1000), (''dim'', PInt 3), (''ioffset'', PFloat 0),
      (''measodr'', PFloat 104), (''usb_dps'', PInt 24), (''sd_dps'', PInt 2496),
      (''sensitivity'', PFloat 0.5), (''data_type'', PStr ''int16''),
      (''sensor_category'', PInt 0), (''c_type'', PInt 0), (''stream_id'', PInt 1),
      (''ep_id'', PInt 0), (''sensor_annotation'', PStr ''front'')]"

definition gyroscope_attrs :: pydict where
  "gyroscope_attrs = AList.update ''enable'' (PBool False) accelerometer_attrs"

definition board_info_attrs :: pydict where
  "board_info_attrs = [(''fw_version'', PStr ''1.2'')]"

definition example_components :: "pyval list" where
  "example_components =
     [PDict [(''accelerometer'', PDict accelerometer_attrs),
             (''gyroscope'', PDict gyroscope_attrs),
             (''board_info'', PDict board_info_attrs)]]"

definition example_device_config :: pydict where
  "example_device_config =
     [(''board_id'', PInt 14), (''fw_id'', PInt 7), (''components'', PList example_components),
      (''schema_version'', PStr ''2.0'')]"

definition accelerometer :: component where
  "accelerometer =
     \<lparr>name = ''accelerometer'', odr = 104, fs = Some 16, enable = True,
      samples_per_ts = 1000, dim = 3, ioffset = 0, measodr = 104, usb_dps = 24,
      sd_dps = 2496, sensitivity = 0.5, data_type = ''int16'', sensor_category = 0,
      c_type = 0, stream_id = 1, ep_id = 0,
      extra = [(''sensor_annotation'', PStr ''front'')]\<rparr>"

definition gyroscope :: component where
  "gyroscope = accelerometer\<lparr>name := ''gyroscope'', enable := False\<rparr>"

definition example_device :: Device where
  "example_device =
     \<lparr>board_id = 14, fw_id = 7, component_data = example_components,
      device_extra = [(''schema_version'', PStr ''2.0'')]\<rparr>"

text \<open>The accelerometer with the string \<^verbatim>\<open>"false"\<close> as its \<^verbatim>\<open>enable\<close> attribute.\<close>

definition switched_off_attrs :: pydict where
  "switched_off_attrs = AList.update ''enable'' (PStr ''false'') accelerometer_attrs"

text \<open>An entry with a sampling rate and no \<^verbatim>\<open>enable\<close> attribute.\<close>

definition magnetometer_attrs :: pydict where
  "magnetometer_attrs = [(''odr'', PInt 100)]"

section \<open>Tag events and tag ranges\<close>

text \<open>
  A tag event is a label, an event kind (start or stop) and a timestamp; a TagRange is
  \<open>{label, start_time, end_time}\<close>. The type of timestamps is left open: the reconstruction
  only copies them, and the order of the log is stated where a property needs it.
\<close>

datatype event_kind = Start | Stop

datatype 't tag_event = TagEvent (ev_label: string) (ev_kind: event_kind) (ev_time: 't)

record 't tag_range =
  label :: string
  start_time :: 't
  end_time :: 't

text \<open>
  Modelled from the spec: \<^verbatim>\<open>TagRange.from_tag_events\<close> of \<^verbatim>\<open>vic/acquisitioninfo.py\<close>, which
  is not among the sources. The spec's words (section 4.2): maintain, per label, the timestamp
  of the most recent unmatched start event; on a stop event for that label, emit a TagRange
  and clear the pending start; a stop without a pending start, or a start superseding an
  unclosed prior start for the same label, must fail; ranges are in the order they were
  closed; empty input yields an empty sequence. The first argument of the loop is the
  pending start of each label.
\<close>

fun tag_loop :: "(string \<rightharpoonup> 't) \<Rightarrow> 't tag_event list \<Rightarrow> error + 't tag_range list" where
  "tag_loop pending [] = Inr []"
| "tag_loop pending (e # es) =
     (case ev_kind e of
        Start \<Rightarrow>
          (case pending (ev_label e) of
             Some _ \<Rightarrow> Inl MalformedLog
           | None \<Rightarrow> tag_loop (pending(ev_label e \<mapsto> ev_time e)) es)
      | Stop \<Rightarrow>
          (case pending (ev_label e) of
             None \<Rightarrow> Inl MalformedLog
           | Some t0 \<Rightarrow>
               (case tag_loop (pending(ev_label e := None)) es of
                  Inl x \<Rightarrow> Inl x
                | Inr rs \<Rightarrow>
                    Inr (\<lparr>label = ev_label e, start_time = t0, end_time = ev_time e\<rparr> # rs))))"

definition from_tag_events :: "'t tag_event list \<Rightarrow> error + 't tag_range list" where
  "from_tag_events tag_events = tag_loop Map.empty tag_events"

text \<open>
  The notions the properties of the reconstruction are stated with, defined on the event
  sequence alone. The pending start of a label after a run of events: the timestamp of the
  label's last event, if that is a start.
\<close>

definition events_of :: "string \<Rightarrow> 't tag_event list \<Rightarrow> 't tag_event list" where
  "events_of l es = filter (\<lambda>e. ev_label e = l) es"

definition pending_start :: "string \<Rightarrow> 't tag_event list \<Rightarrow> 't option" where
  "pending_start l es =
     (case events_of l es of
        [] \<Rightarrow> None
      | x # xs \<Rightarrow> if ev_kind (last (x # xs)) = Start then Some (ev_time (last (x # xs))) else None)"

text \<open>The complete start/stop pairs of one label's events, as (start, stop) timestamps.\<close>

fun pairs :: "'t tag_event list \<Rightarrow> ('t \<times> 't) list" where
  "pairs (s # t # es) = (ev_time s, ev_time t) # pairs es"
| "pairs _ = []"

text \<open>Kinds that alternate start, stop, start, ...; the flag says a start is open.\<close>

fun alternates :: "bool \<Rightarrow> event_kind list \<Rightarrow> bool" where
  "alternates opened [] = True"
| "alternates False (Start # ks) = alternates True ks"
| "alternates True (Stop # ks) = alternates False ks"
| "alternates _ _ = False"

text \<open>
  A well-formed log: ordered by timestamp, and for every label the events alternate,
  beginning with a start.
\<close>

definition well_formed :: "('t::linorder) tag_event list \<Rightarrow> bool" where
  "well_formed es =
     (sorted (map ev_time es) \<and>
      list_all (\<lambda>l. alternates False (map ev_kind (events_of l es))) (remdups (map ev_label es)))"

text \<open>Scenario A: one label, start at 0, stop at 10, start at 20, stop at 25.\<close>

definition walk_events :: "int tag_event list" where
  "walk_events =
     [TagEvent ''walk'' Start 0, TagEvent ''walk'' Stop 10,
      TagEvent ''walk'' Start 20, TagEvent ''walk'' Stop 25]"

section \<open>The Dataset Assembler (\<^verbatim>\<open>assemble_metadata\<close>)\<close>

text \<open>
  Modelled from the spec: the manifest types of \<^verbatim>\<open>vic/models.py\<close>, which is not among the
  sources. Section 3 gives their fields: a FileItem is \<open>{id, relative_path, media type,
  extension}\<close>, a DataItem is \<open>{class label, start_time, end_time, FileItem, Source,
  Device}\<close>, a Dataset is \<open>{name, description, id, classes, data, metadata}\<close>. The fields
  \<^verbatim>\<open>id\<close>, \<^verbatim>\<open>type\<close>, \<^verbatim>\<open>class\<close>, \<^verbatim>\<open>file\<close> and \<^verbatim>\<open>name\<close> are \<open>file_id\<close>, \<open>mime_type\<close>,
  \<open>class_label\<close>, \<open>item_file\<close> and \<open>dataset_name\<close> here. \<^verbatim>\<open>DataItem.model_validate\<close> and the
  Dataset constructor receive exactly these fields, built from validated values, and are
  the construction of the record. Source and Device are kept abstract.
\<close>

record file_item =
  file_id :: string
  relative_path :: string
  mime_type :: string
  extension :: string

record ('t, 'src, 'dev) data_item =
  class_label :: string
  item_start_time :: 't
  item_end_time :: 't
  item_file :: file_item
  source :: 'src
  device :: 'dev

record ('t, 'src, 'dev) dataset =
  dataset_name :: string
  description :: string
  dataset_id :: string
  classes :: "string list"
  data :: "('t, 'src, 'dev) data_item list"
  metadata :: pydict

text \<open>
  The functions of \<^verbatim>\<open>vic/acquisitioninfo.py\<close> and \<^verbatim>\<open>vic/models.py\<close> that
  \<^verbatim>\<open>assemble_metadata\<close> calls before it touches the output directory are parameters:
  \<^verbatim>\<open>AcquisitionInfo.model_validate\<close> (followed by \<^verbatim>\<open>.tag_events\<close>),
  \<^verbatim>\<open>Source.model_validate\<close>, \<^verbatim>\<open>Component.from_device_config_component\<close> and
  \<^verbatim>\<open>Device.model_validate\<close> of \<^verbatim>\<open>vic.models\<close> (on the components, \<^verbatim>\<open>board_id\<close> and
  \<^verbatim>\<open>fw_id\<close>). Each may raise.
\<close>

record ('t, 'src, 'c, 'dev) models =
  AcquisitionInfo_model_validate :: "pyval \<Rightarrow> error + 't tag_event list"
  Source_model_validate :: "pyval \<Rightarrow> error + 'src"
  from_device_config_component :: "component \<Rightarrow> error + 'c"
  models_Device_model_validate :: "'c list \<Rightarrow> int \<Rightarrow> int \<Rightarrow> error + 'dev"

text \<open>
  What the acquisition library returns for the folder (\<^verbatim>\<open>hsd.get_acquisition_info()\<close>,
  \<^verbatim>\<open>hsd.get_device()\<close>, the \<^verbatim>\<open>Label\<close> of each item of \<^verbatim>\<open>hsd.get_time_tags()\<close>), and the
  string of the fresh \<^verbatim>\<open>ulid.ULID()\<close>.
\<close>

record hsd =
  get_acquisition_info :: pyval
  get_device :: pyval
  get_time_tags :: "string list"
  new_ulid :: string

text \<open>
  The state \<^verbatim>\<open>assemble_metadata\<close> acts on: the tree under \<^verbatim>\<open>temp_path_out\<close>, the document
  written to \<^verbatim>\<open>dataset-meta.json\<close> (none before the write; its serialisation is not
  modelled), and the renames and reads done so far.
\<close>

record ('t, 'src, 'dev) world =
  tree :: listing
  manifest :: "('t, 'src, 'dev) dataset option"
  trace :: "event list"

text \<open>Lines 109 to 137: everything validated before the output directory is read.\<close>

definition prepare ::
  "('t, 'src, 'c, 'dev) models \<Rightarrow> validators \<Rightarrow> hsd \<Rightarrow> error + 't tag_event list \<times> 'src \<times> 'dev" where
  "prepare M V h =
     (case AcquisitionInfo_model_validate M (get_acquisition_info h) of
        Inl e \<Rightarrow> Inl e
      | Inr tag_events \<Rightarrow>
     (case Source_model_validate M
             (PDict [(''blob_id'', PStr ''none''), (''metadata'', get_acquisition_info h)]) of
        Inl e \<Rightarrow> Inl e
      | Inr src \<Rightarrow>
     (case Device_model_validate V (get_device h) of
        Inl e \<Rightarrow> Inl e
      | Inr device_config_valid \<Rightarrow>
     (case get_components V device_config_valid True of
        Inl e \<Rightarrow> Inl e
      | Inr device_config_components \<Rightarrow>
     (case collect (from_device_config_component M) device_config_components of
        Inl e \<Rightarrow> Inl e
      | Inr components_valid \<Rightarrow>
     (case models_Device_model_validate M components_valid
             (board_id device_config_valid) (fw_id device_config_valid) of
        Inl e \<Rightarrow> Inl e
      | Inr device_valid \<Rightarrow> Inr (tag_events, src, device_valid)))))))"

text \<open>
  The inner loop \<^verbatim>\<open>for tag_range, file in zip(one_tag_ranges, files)\<close> on the directory
  \<open>d\<close> of the subfolder: the events, the directory afterwards, and the data items or the
  error.
\<close>

fun process_files ::
  "string \<Rightarrow> 'src \<Rightarrow> 'dev \<Rightarrow> ('t tag_range \<times> string) list \<Rightarrow> listing
     \<Rightarrow> event list \<times> listing \<times> (error + ('t, 'src, 'dev) data_item list)" where
  "process_files subfolder src dev [] d = ([], d, Inr [])"
| "process_files subfolder src dev ((tag_range, file) # rest) d =
     (case content_address subfolder file d of
        (evs, Inl e) \<Rightarrow> (evs, d, Inl e)
      | (evs, Inr (fid, file_name, d')) \<Rightarrow>
          (let fitem = \<lparr>file_id = fid, relative_path = subfolder @ ''/'' @ file_name,
                        mime_type = ''text/csv'', extension = ''csv''\<rparr>;
               ditem = \<lparr>class_label = label tag_range,
                        item_start_time = start_time tag_range,
                        item_end_time = end_time tag_range,
                        item_file = fitem, source = src, device = dev\<rparr>
           in case process_files subfolder src dev rest d' of
                (evs', d'', Inl e) \<Rightarrow> (evs @ evs', d'', Inl e)
              | (evs', d'', Inr items) \<Rightarrow> (evs @ evs', d'', Inr (ditem # items))))"

text \<open>
  The outer loop \<^verbatim>\<open>for subfolder in subfolders\<close> on the tree \<open>t\<close>, with the two assertions
  on the files of each subfolder.
\<close>

fun process_subfolders ::
  "'t tag_range list \<Rightarrow> 'src \<Rightarrow> 'dev \<Rightarrow> string list \<Rightarrow> listing
     \<Rightarrow> event list \<times> listing \<times> (error + ('t, 'src, 'dev) data_item list)" where
  "process_subfolders tag_ranges src dev [] t = ([], t, Inr [])"
| "process_subfolders tag_ranges src dev (subfolder # rest) t =
     (case map_of t subfolder of
        None \<Rightarrow> ([], t, Inl FileNotFoundError)
      | Some (File _) \<Rightarrow> ([], t, Inl NotADirectoryError)
      | Some (Dir d) \<Rightarrow>
          (let one_tag_ranges = filter (\<lambda>tag_range. label tag_range = subfolder) tag_ranges;
               files = listdir d
           in if \<not> list_all (\<lambda>file. endswith file ''.csv'') files
              then ([], t, Inl AssertionError)
              else if length files \<noteq> length one_tag_ranges
              then ([], t, Inl AssertionError)
              else (case process_files subfolder src dev (zip one_tag_ranges files) d of
                      (evs, d', Inl e) \<Rightarrow> (evs, AList.update subfolder (Dir d') t, Inl e)
                    | (evs, d', Inr items) \<Rightarrow>
                        (case process_subfolders tag_ranges src dev rest
                                (AList.update subfolder (Dir d') t) of
                           (evs', t', Inl e) \<Rightarrow> (evs @ evs', t', Inl e)
                         | (evs', t', Inr items') \<Rightarrow> (evs @ evs', t', Inr (items @ items'))))))"

definition is_dir :: "listing \<Rightarrow> string \<Rightarrow> bool" where
  "is_dir t item = (case map_of t item of Some (Dir _) \<Rightarrow> True | _ \<Rightarrow> False)"

text \<open>
  \<^verbatim>\<open>assemble_metadata\<close>. An exception leaves the state as it is at that point; the
  manifest is written by the last statement only. \<^verbatim>\<open>list(tags)\<close> is a list of the distinct
  labels in an order Python does not fix: only its set is meant.
\<close>

definition assemble_metadata ::
  "('t, 'src, 'c, 'dev) models \<Rightarrow> validators \<Rightarrow> hsd \<Rightarrow> ('t, 'src, 'dev) world
     \<Rightarrow> ('t, 'src, 'dev) world \<times> (error + unit)" where
  "assemble_metadata M V h w =
     (case prepare M V h of
        Inl e \<Rightarrow> (w, Inl e)
      | Inr (tag_events, src, device_valid) \<Rightarrow>
          (let tags = get_time_tags h;
               subfolders = listdir (tree w)
           in if \<not> list_all (is_dir (tree w)) subfolders then (w, Inl AssertionError)
              else if set subfolders \<noteq> set tags then (w, Inl AssertionError)
              else (case from_tag_events tag_events of
                      Inl e \<Rightarrow> (w, Inl e)
                    | Inr tag_ranges \<Rightarrow>
                        (case process_subfolders tag_ranges src device_valid subfolders (tree w) of
                           (evs, t', Inl e) \<Rightarrow>
                             (w\<lparr>tree := t', trace := trace w @ evs\<rparr>, Inl e)
                         | (evs, t', Inr data_items) \<Rightarrow>
                             (let ds = \<lparr>dataset_name = ''my converted dataset'',
                                        description = ''My dataset description'',
                                        dataset_id = lower (new_ulid h),
                                        classes = remdups tags,
                                        data = data_items,
                                        metadata = []\<rparr>
                              in case map_of t' ''dataset-meta.json'' of
                                   Some (Dir _) \<Rightarrow>
                                     (w\<lparr>tree := t', trace := trace w @ evs\<rparr>,
                                      Inl IsADirectoryError)
                                 | _ \<Rightarrow>
                                     (w\<lparr>tree := t', trace := trace w @ evs,
                                        manifest := Some ds\<rparr>, Inr ()))))))"

text \<open>The renames of a run of events, as (from, to) pairs.\<close>

fun renames :: "event list \<Rightarrow> (string \<times> string) list" where
  "renames [] = []"
| "renames (Read _ # evs) = renames evs"
| "renames (Rename p q # evs) = (p, q) # renames evs"

text \<open>The files of a subfolder of the tree, as paths relative to the output directory.\<close>

definition files_of :: "listing \<Rightarrow> string \<Rightarrow> string list" where
  "files_of t subfolder =
     (case map_of t subfolder of
        Some (Dir d) \<Rightarrow> map (\<lambda>file. subfolder @ ''/'' @ file) (listdir d)
      | _ \<Rightarrow> [])"

text \<open>
  The end-to-end scenarios. The acquisition has the tag events of scenario A and the device
  configuration of the examples; the missing validators are instantiated by functions
  that accept their argument as it is. In scenario A the subfolder \<^verbatim>\<open>walk\<close> has two
  files, in scenario B three.
\<close>

definition example_models :: "(int, pyval, component, component list \<times> int \<times> int) models" where
  "example_models =
     \<lparr>AcquisitionInfo_model_validate = (\<lambda>raw. Inr walk_events),
      Source_model_validate = Inr,
      from_device_config_component = Inr,
      models_Device_model_validate = (\<lambda>cs b f. Inr (cs, b, f))\<rparr>"

definition example_hsd :: hsd where
  "example_hsd =
     \<lparr>get_acquisition_info = PDict [(''name'', PStr ''acquisition'')],
      get_device = PDict example_device_config,
      get_time_tags = [''walk'', ''walk''],
      new_ulid = ''01ARZ3NDEKTSV4RRFFQ69G5FAV''\<rparr>"

definition example_source :: pyval where
  "example_source =
     PDict [(''blob_id'', PStr ''none''),
            (''metadata'', PDict [(''name'', PStr ''acquisition'')])]"

definition scenario_A :: "(int, pyval, component list \<times> int \<times> int) world" where
  "scenario_A =
     \<lparr>tree = [(''walk'', Dir [(''0.csv'', File []), (''1.csv'', File [0x61])])],
      manifest = None, trace = []\<rparr>"


definition scenario_A_dataset :: "(int, pyval, component list \<times> int \<times> int) dataset" where
  "scenario_A_dataset =
     \<lparr>dataset_name = ''my converted dataset'',
      description = ''My dataset description'',
      dataset_id = ''01arz3ndektsv4rrffq69g5fav'',
      classes = [''walk''],
      data =
        [\<lparr>class_label = ''walk'', item_start_time = 0, item_end_time = 10,
          item_file =
            \<lparr>file_id = ''4oymiquy7qobjgx36tejs35zeqt24qpemsnzgtfeswmrw6csxbkq===='',
             relative_path = ''walk/4oymiquy.csv'', mime_type = ''text/csv'',
             extension = ''csv''\<rparr>,
          source = example_source, device = ([accelerometer], 14, 7)\<rparr>,
         \<lparr>class_label = ''walk'', item_start_time = 20, item_end_time = 25,
          item_file =
            \<lparr>file_id = ''zklycewkdo64v6wcggzzui64jwtyn37ycr6e44vzqb3yll7ojc5q===='',
             relative_path = ''walk/zklycewk.csv'', mime_type = ''text/csv'',
             extension = ''csv''\<rparr>,
          source = example_source, device = ([accelerometer], 14, 7)\<rparr>],
      metadata = []\<rparr>"

section \<open>Properties of the identifier\<close>

lemma length_be32_bytes: "length (be32_bytes w) = 4"
  by (simp add: be32_bytes_def)

lemma length_hstate_bytes: "length (hstate_bytes s) = 32"
  by (simp add: hstate_bytes_def length_be32_bytes split: prod.splits)

lemma length_sha256: "length (sha256 m) = 32"
  by (simp add: sha256_def length_hstate_bytes)

lemma chunks_Nil: "chunks n [] = []"
  by (simp add: chunks.simps)

lemma chunks_step: "0 < n \<Longrightarrow> xs \<noteq> [] \<Longrightarrow> chunks n xs = take n xs # chunks n (drop n xs)"
  by (subst chunks.simps) simp

lemma chunks_exact:
  "0 < n \<Longrightarrow> length xs = k * n \<Longrightarrow>
   length (chunks n xs) = k \<and> (\<forall>q \<in> set (chunks n xs). length q = n)"
proof (induction k arbitrary: xs)
  case 0
  then show ?case by (simp add: chunks_Nil)
next
  case (Suc k)
  then have ne: "xs \<noteq> []" by auto
  have "length (drop n xs) = k * n" using Suc.prems by simp
  from Suc.IH [OF Suc.prems(1) this] show ?case
    using Suc.prems by (simp add: chunks_step [OF Suc.prems(1) ne])
qed

lemma from_bytes_bounds: "0 \<le> from_bytes bs \<and> from_bytes bs < 256 ^ length bs"
proof -
  have "0 \<le> foldl (\<lambda>acc b. 256 * acc + uint b) a bs \<and>
        foldl (\<lambda>acc b. 256 * acc + uint b) a bs < (a + 1) * 256 ^ length bs"
    if "0 \<le> a" for a :: int
    using that
  proof (induction bs arbitrary: a)
    case Nil
    then show ?case by simp
  next
    case (Cons b bs)
    have b: "0 \<le> uint b" "uint b < 256" using uint_lt2p [of b] by simp_all
    have a': "0 \<le> 256 * a + uint b" using Cons.prems b by simp
    have "(256 * a + uint b + 1) * 256 ^ length bs \<le> ((a + 1) * 256) * 256 ^ length bs"
      using b by (intro mult_right_mono) simp_all
    also have "\<dots> = (a + 1) * 256 ^ length (b # bs)" by simp
    finally have le:
      "(256 * a + uint b + 1) * 256 ^ length bs \<le> (a + 1) * 256 ^ length (b # bs)" .
    let ?f = "foldl (\<lambda>acc b. 256 * acc + uint b) (256 * a + uint b) bs"
    from Cons.IH [OF a'] have f0: "0 \<le> ?f" by (rule conjunct1)
    from Cons.IH [OF a'] have "?f < (256 * a + uint b + 1) * 256 ^ length bs"
      by (rule conjunct2)
    from this le have "?f < (a + 1) * 256 ^ length (b # bs)" by (rule less_le_trans)
    with f0 show ?case unfolding foldl_Cons by (rule conjI)
  qed
  from this [of 0] show ?thesis by (simp add: from_bytes_def)
qed

lemma length_b32alphabet: "length b32alphabet = 32"
  by (simp add: b32alphabet_def)

lemma b32alphabet_nth: "n < 32 \<Longrightarrow> b32alphabet ! n \<in> set b32alphabet"
  by (rule nth_mem) (simp add: length_b32alphabet)

lemma b32tab2_set: "0 \<le> i \<Longrightarrow> i < 1024 \<Longrightarrow> set (b32tab2 i) \<subseteq> set b32alphabet"
proof -
  assume i: "0 \<le> i" "i < 1024"
  have "nat (i div 32) < 32" "nat (i mod 32) < 32" using i by auto
  then show ?thesis by (simp add: b32tab2_def b32alphabet_nth)
qed

lemma and_3ff_bounds: "0 \<le> (x::int) AND 0x3ff \<and> x AND 0x3ff < 1024"
proof -
  have "x AND 0x3ff \<le> 0x3ff" by (rule AND_upper2) simp
  then show ?thesis by simp
qed

lemma length_b32quantum: "length (b32quantum q) = 8"
  by (simp add: b32quantum_def b32tab2_def Let_def)

lemma b32quantum_set: "length q = 5 \<Longrightarrow> set (b32quantum q) \<subseteq> set b32alphabet"
proof -
  assume q: "length q = 5"
  have c: "0 \<le> from_bytes q" "from_bytes q < 2 ^ 40"
    using from_bytes_bounds [of q] q by simp_all
  have d: "0 \<le> drop_bit 30 (from_bytes q)" "drop_bit 30 (from_bytes q) < 1024"
    using c by (simp_all add: drop_bit_eq_div)
  show ?thesis
    using d and_3ff_bounds by (simp add: b32quantum_def Let_def b32tab2_set)
qed

lemma lower_char_pad: "lower_char c = CHR ''='' \<Longrightarrow> c = CHR ''=''"
proof (cases "map_of (zip ''ABCDEFGHIJKLMNOPQRSTUVWXYZ'' ''abcdefghijklmnopqrstuvwxyz'') c")
  case None
  assume "lower_char c = CHR ''=''"
  with None show ?thesis by (simp add: lower_char_def)
next
  case (Some l)
  assume "lower_char c = CHR ''=''"
  with Some have l: "l = CHR ''=''" by (simp add: lower_char_def)
  from Some have "l \<in> set ''abcdefghijklmnopqrstuvwxyz''"
    by (blast dest: map_of_SomeD set_zip_rightD)
  with l show ?thesis by simp
qed

lemma pad_notin_b32alphabet: "CHR ''='' \<notin> set b32alphabet"
  by (simp add: b32alphabet_def)

lemma length_concat_b32quantum: "length (concat (map b32quantum qs)) = 8 * length qs"
  by (induction qs) (simp_all add: length_b32quantum)

lemma set_concat_b32quantum:
  "\<forall>q \<in> set qs. length q = 5 \<Longrightarrow> set (concat (map b32quantum qs)) \<subseteq> set b32alphabet"
  using b32quantum_set by (induction qs) simp_all

lemma replicate4: "replicate 4 c = [c, c, c, c]"
  by (simp add: numeral_eq_Suc)

lemma b32encode_32:
  assumes "length s = 32"
  shows "length (b32encode s) = 56" and "drop 52 (b32encode s) = ''====''"
    and "set (take 52 (b32encode s)) \<subseteq> set b32alphabet"
proof -
  define enc where "enc = concat (map b32quantum (chunks 5 (s @ replicate 3 0)))"
  have len: "length (s @ replicate 3 0) = 7 * 5" using assms by simp
  have five: "(0::nat) < 5" by simp
  note ch = chunks_exact [OF five len]
  have e: "b32encode s = set_tail 4 enc"
    using assms by (simp add: b32encode_def Let_def enc_def)
  have le: "length enc = 56"
    using ch by (simp add: enc_def length_concat_b32quantum)
  have se: "set enc \<subseteq> set b32alphabet"
    unfolding enc_def using ch by (intro set_concat_b32quantum) simp
  show "length (b32encode s) = 56" using le by (simp add: e set_tail_def)
  show "drop 52 (b32encode s) = ''====''" using le by (simp add: e set_tail_def replicate4)
  have "take 52 (b32encode s) = take 52 enc" using le by (simp add: e set_tail_def)
  then show "set (take 52 (b32encode s)) \<subseteq> set b32alphabet"
    using se set_take_subset [of 52 enc] by simp
qed

text \<open>The read loop feeds the hash object every byte of the file, in order.\<close>

lemma read_loop_fst: "fst (read_loop file_handle h evs) = h @ file_handle"
proof (induction file_handle h evs rule: read_loop.induct)
  case (1 file_handle h evs)
  show ?case
  proof (cases "take DIGEST_READ_BUFFER_LENGTH file_handle = []")
    case True
    then have "file_handle = []" by (simp add: DIGEST_READ_BUFFER_LENGTH_def)
    then show ?thesis by (subst read_loop.simps) simp
  next
    case False
    have "fst (read_loop file_handle h evs) =
          fst (read_loop (drop DIGEST_READ_BUFFER_LENGTH file_handle)
                 (update h (take DIGEST_READ_BUFFER_LENGTH file_handle))
                 (evs @ [Read (take DIGEST_READ_BUFFER_LENGTH file_handle)]))"
      using False by (subst read_loop.simps) (simp add: Let_def)
    also have "\<dots> = update h (take DIGEST_READ_BUFFER_LENGTH file_handle)
                 @ drop DIGEST_READ_BUFFER_LENGTH file_handle"
      using False by (intro "1.IH") simp_all
    finally show ?thesis by (simp add: update_def)
  qed
qed

lemma file_id_of_eq: "file_id_of content = lower (b32encode (sha256 content))"
  by (simp add: file_id_of_def read_loop_fst digest_def sha256_new_def)

lemma length_file_id_of: "length (file_id_of content) = 56"
  by (simp add: file_id_of_eq lower_def b32encode_32 length_sha256)

lemma file_id_of_tail: "drop 52 (file_id_of content) = ''====''"
proof -
  have "drop 52 (file_id_of content) = map lower_char (drop 52 (b32encode (sha256 content)))"
    by (simp add: file_id_of_eq lower_def drop_map)
  also have "\<dots> = map lower_char ''====''"
    by (simp only: b32encode_32(2) [OF length_sha256])
  also have "\<dots> = ''====''" by (simp add: lower_char_def)
  finally show ?thesis .
qed

lemma file_id_of_head: "CHR ''='' \<notin> set (take 52 (file_id_of content))"
proof
  assume "CHR ''='' \<in> set (take 52 (file_id_of content))"
  then have "CHR ''='' \<in> lower_char ` set (take 52 (b32encode (sha256 content)))"
    by (simp add: file_id_of_eq lower_def take_map)
  then obtain c where c: "c \<in> set (take 52 (b32encode (sha256 content)))"
    and "lower_char c = CHR ''=''" by auto
  then have "c = CHR ''=''" by (simp add: lower_char_pad)
  with c b32encode_32(3) [OF length_sha256, of content] pad_notin_b32alphabet
  show False by auto
qed

text \<open>
  C2. Whatever the bytes of the file (any length, the empty file included), the
  identifier \<^verbatim>\<open>file_id\<close> has exactly 56 characters, its last four are the padding
  \<^verbatim>\<open>====\<close>, and none of the 52 characters before them is a padding character.
\<close>

theorem file_id_length_and_padding:
  "length (file_id_of content) = 56 \<and>
   drop 52 (file_id_of content) = ''===='' \<and>
   endswith (file_id_of content) ''===='' \<and>
   CHR ''='' \<notin> set (take 52 (file_id_of content))"
  by (simp add: length_file_id_of file_id_of_tail file_id_of_head endswith_def)

section \<open>Properties of the Content Addresser\<close>

lemma concat_chunks: "0 < n \<Longrightarrow> concat (chunks n xs) = xs"
proof (induction n xs rule: chunks.induct)
  case (1 n xs)
  show ?case
  proof (cases "xs = []")
    case True
    then show ?thesis by (simp add: chunks_Nil)
  next
    case False
    with "1.prems" have "concat (chunks n (drop n xs)) = drop n xs"
      by (intro "1.IH") simp_all
    then show ?thesis using False "1.prems" by (simp add: chunks_step)
  qed
qed

lemma read_loop_snd:
  "snd (read_loop file_handle h evs) =
     evs @ map Read (chunks DIGEST_READ_BUFFER_LENGTH file_handle) @ [Read []]"
proof (induction file_handle h evs rule: read_loop.induct)
  case (1 file_handle h evs)
  have pos: "0 < DIGEST_READ_BUFFER_LENGTH" by (simp add: DIGEST_READ_BUFFER_LENGTH_def)
  show ?case
  proof (cases "take DIGEST_READ_BUFFER_LENGTH file_handle = []")
    case True
    then have "file_handle = []" using pos by simp
    then show ?thesis by (subst read_loop.simps) (simp add: chunks_Nil)
  next
    case False
    then have ne: "file_handle \<noteq> []" by auto
    have "snd (read_loop file_handle h evs) =
          snd (read_loop (drop DIGEST_READ_BUFFER_LENGTH file_handle)
                 (update h (take DIGEST_READ_BUFFER_LENGTH file_handle))
                 (evs @ [Read (take DIGEST_READ_BUFFER_LENGTH file_handle)]))"
      using False by (subst read_loop.simps) (simp add: Let_def)
    also have "\<dots> = (evs @ [Read (take DIGEST_READ_BUFFER_LENGTH file_handle)])
        @ map Read (chunks DIGEST_READ_BUFFER_LENGTH (drop DIGEST_READ_BUFFER_LENGTH file_handle))
        @ [Read []]"
      using False by (intro "1.IH") simp_all
    finally show ?thesis by (simp add: chunks_step [OF pos ne])
  qed
qed

lemma bytes_read_map_Read: "bytes_read (map Read cs @ evs) = concat cs @ bytes_read evs"
  by (induction cs) simp_all

lemma read_loop_eq:
  "read_loop content sha256_new [] =
     (content, map Read (chunks DIGEST_READ_BUFFER_LENGTH content) @ [Read []])"
  using read_loop_fst [of content sha256_new "[]"] read_loop_snd [of content sha256_new "[]"]
  by (simp add: prod_eq_iff sha256_new_def)


lemma content_address_File:
  assumes "map_of d file = Some (File content)"
  shows "snd (content_address subfolder file d) =
           (case rename file (take 8 (file_id_of content) @ ''.csv'') d of
              Inl e \<Rightarrow> Inl e
            | Inr d' \<Rightarrow> Inr (file_id_of content, take 8 (file_id_of content) @ ''.csv'', d'))"
proof -
  have id: "lower (b32encode (digest content)) = file_id_of content"
    by (simp add: file_id_of_eq digest_def)
  show ?thesis
    using assms length_file_id_of [of content] file_id_of_tail [of content]
    by (simp add: content_address_def content_address_with_def read_loop_eq Let_def id
        endswith_def split: sum.splits)
qed

lemma content_address_Inr:
  assumes "snd (content_address subfolder file d) = Inr (fid, fname, d')"
  shows "\<exists>content. map_of d file = Some (File content) \<and> fid = file_id_of content \<and>
           fname = take 8 fid @ ''.csv'' \<and> rename file fname d = Inr d'"
proof (cases "map_of d file")
  case None
  with assms show ?thesis by (simp add: content_address_def content_address_with_def)
next
  case (Some n)
  show ?thesis
  proof (cases n)
    case (Dir es)
    with Some assms show ?thesis by (simp add: content_address_def content_address_with_def)
  next
    case (File content)
    with Some have m: "map_of d file = Some (File content)" by simp
    from assms show ?thesis
      unfolding content_address_File [OF m] using m by (auto split: sum.splits)
  qed
qed

lemma rename_map_of:
  assumes "rename src dst d = Inr d'" and "map_of d src = Some n"
  shows "map_of d' dst = Some n"
  using assms
  by (auto simp: rename_def update_conv' split: if_splits node.splits option.splits list.splits)

lemma rename_same: "map_of d n = Some x \<Longrightarrow> rename n n d = Inr d"
  by (simp add: rename_def)

text \<open>
  C8. Re-applying the Content Addresser is a no-op. A file whose name already is the short
  name derived from its own digest keeps its name and the directory is unchanged; and
  after any successful run, a second run on the renamed file returns the same identifier,
  the same name and the same directory.
\<close>

theorem content_address_idempotent:
  "(map_of d file = Some (File content) \<and> file = take 8 (file_id_of content) @ ''.csv''
      \<longrightarrow> snd (content_address subfolder file d) = Inr (file_id_of content, file, d)) \<and>
   (snd (content_address subfolder file d) = Inr (fid, fname, d')
      \<longrightarrow> snd (content_address subfolder fname d') = Inr (fid, fname, d'))"
proof (intro conjI impI)
  assume a: "map_of d file = Some (File content) \<and> file = take 8 (file_id_of content) @ ''.csv''"
  then have m: "map_of d file = Some (File content)"
    and n: "take 8 (file_id_of content) @ ''.csv'' = file" by blast+
  show "snd (content_address subfolder file d) = Inr (file_id_of content, file, d)"
    unfolding content_address_File [OF m] n rename_same [OF m] by simp
next
  assume "snd (content_address subfolder file d) = Inr (fid, fname, d')"
  from content_address_Inr [OF this] obtain content where
    c: "map_of d file = Some (File content)" "fid = file_id_of content"
       "fname = take 8 fid @ ''.csv''" "rename file fname d = Inr d'" by blast
  from rename_map_of [OF c(4) c(1)] have m: "map_of d' fname = Some (File content)" .
  have n: "take 8 (file_id_of content) @ ''.csv'' = fname" using c by simp
  show "snd (content_address subfolder fname d') = Inr (fid, fname, d')"
    unfolding content_address_File [OF m] n rename_same [OF m] using c by simp
qed

text \<open>
  C5. In every run of the Content Addresser on a file, whatever the digest function
  returns: if a rename event occurs, then everything before it is the complete sequence
  of reads of the file, ending with the empty read, their bytes are the whole content, the
  identifier computed from the digest of that content has passed both assertions (length
  56, ending in four padding characters), the rename goes from the file's name to the name
  made of the first 8 characters of that identifier, and nothing follows it.
\<close>

theorem rename_after_digest_validated:
  assumes run: "content_address_with dg subfolder file d = (evs, r)"
      and ev: "evs = pre @ Rename p q # post"
  shows "\<exists>content.
           map_of d file = Some (File content) \<and>
           pre = map Read (chunks DIGEST_READ_BUFFER_LENGTH content) @ [Read []] \<and>
           bytes_read pre = content \<and>
           length (lower (b32encode (dg content))) = 56 \<and>
           endswith (lower (b32encode (dg content))) ''===='' \<and>
           p = subfolder @ ''/'' @ file \<and>
           q = subfolder @ ''/'' @ take 8 (lower (b32encode (dg content))) @ ''.csv'' \<and>
           post = []"
proof (cases "map_of d file")
  case None
  with run ev show ?thesis by (simp add: content_address_with_def)
next
  case (Some n)
  show ?thesis
  proof (cases n)
    case (Dir es)
    with Some run ev show ?thesis by (simp add: content_address_with_def)
  next
    case (File content)
    let ?reads = "map Read (chunks DIGEST_READ_BUFFER_LENGTH content) @ [Read []]"
    let ?id = "lower (b32encode (dg content))"
    let ?rn = "Rename (subfolder @ ''/'' @ file) (subfolder @ ''/'' @ take 8 ?id @ ''.csv'')"
    have noren: "Rename a b \<notin> set ?reads" for a b by auto
    have pos: "0 < DIGEST_READ_BUFFER_LENGTH" by (simp add: DIGEST_READ_BUFFER_LENGTH_def)
    have split: "evs = ?reads \<or> evs = ?reads @ [?rn] \<and> length ?id = 56 \<and> endswith ?id ''===='' "
      using run Some File
      by (auto simp: content_address_with_def read_loop_eq Let_def split: if_splits sum.splits)
    then show ?thesis
    proof
      assume "evs = ?reads"
      with ev have "Rename p q \<in> set ?reads" by (metis in_set_conv_decomp)
      with noren show ?thesis by blast
    next
      assume a: "evs = ?reads @ [?rn] \<and> length ?id = 56 \<and> endswith ?id ''===='' "
      from a ev have eq: "pre @ Rename p q # post = ?reads @ [?rn]" by simp
      have "post = []"
      proof (rule ccontr)
        assume "post \<noteq> []"
        then obtain post' x where "post = post' @ [x]" by (metis rev_exhaust)
        with eq have "pre @ Rename p q # post' = ?reads"
          by (metis append.assoc append_Cons butlast_snoc)
        then have "Rename p q \<in> set ?reads" by (metis in_set_conv_decomp)
        with noren show False by blast
      qed
      with eq have "pre = ?reads" "Rename p q = ?rn" by simp_all
      with a File Some \<open>post = []\<close> pos show ?thesis
        by (simp add: bytes_read_map_Read concat_chunks)
    qed
  qed
qed

section \<open>Properties of the device configuration\<close>

lemma map_of_filter_key:
  "map_of (filter (\<lambda>(k, v). P k) xs) k = (if P k then map_of xs k else None)"
  by (induction xs) auto

lemma Component_declared_cong:
  assumes "\<forall>k \<in> set Component_fields. l1 k = l2 k"
  shows "Component_declared V l1 ex = Component_declared V l2 ex"
  using assms
  by (simp add: Component_declared_def required_def optional_float_def Component_fields_def)

lemma Component_declared_extra:
  "Component_declared V l ex = map_option (\<lambda>c. c\<lparr>extra := ex\<rparr>) (Component_declared V l [])"
  by (simp add: Component_declared_def map_option_bind comp_def)

lemma Component_declared_Some: "Component_declared V l ex = Some c \<Longrightarrow> extra c = ex"
  by (subst (asm) Component_declared_extra) auto

lemma Device_declared_cong:
  assumes "\<forall>k \<in> set Device_fields. l1 k = l2 k"
  shows "Device_declared V l1 ex = Device_declared V l2 ex"
  using assms
  by (simp add: Device_declared_def required_def Device_fields_def)

lemma Device_declared_extra:
  "Device_declared V l ex = map_option (\<lambda>c. c\<lparr>device_extra := ex\<rparr>) (Device_declared V l [])"
  by (simp add: Device_declared_def map_option_bind comp_def)

lemma Device_declared_Some: "Device_declared V l ex = Some c \<Longrightarrow> device_extra c = ex"
  by (subst (asm) Device_declared_extra) auto

lemma filter_filter_declared:
  "filter (\<lambda>(k, v). k \<notin> S) (filter (\<lambda>(k, v). k \<in> S) xs) = []"
  by (induction xs) auto

lemma Component_validate_declared_part:
  "Component_model_validate V (filter (\<lambda>(k, v). k \<in> set Component_fields) item) =
     (case Component_model_validate V item of
        Inl e \<Rightarrow> Inl e
      | Inr c \<Rightarrow> Inr (c\<lparr>extra := []\<rparr>))"
proof -
  let ?d = "filter (\<lambda>(k, v). k \<in> set Component_fields) item"
  have l: "Component_declared V (map_of ?d) ex = Component_declared V (map_of item) ex" for ex
    by (rule Component_declared_cong) (simp add: map_of_filter_key)
  show ?thesis
    unfolding Component_model_validate_def l filter_filter_declared
      Component_declared_extra [of _ _ "filter (\<lambda>(k, v). k \<notin> set Component_fields) item"]
    by (auto split: option.splits dest: Component_declared_Some)
qed

lemma Component_validate_extra:
  "Component_model_validate V item = Inr c \<Longrightarrow>
     extra c = filter (\<lambda>(k, v). k \<notin> set Component_fields) item"
  unfolding Component_model_validate_def
  by (auto split: option.splits dest: Component_declared_Some)

lemma Device_validate_declared_part:
  "Device_model_validate V (PDict (filter (\<lambda>(k, v). k \<in> set Device_fields) item)) =
     (case Device_model_validate V (PDict item) of
        Inl e \<Rightarrow> Inl e
      | Inr c \<Rightarrow> Inr (c\<lparr>device_extra := []\<rparr>))"
proof -
  let ?d = "filter (\<lambda>(k, v). k \<in> set Device_fields) item"
  have l: "Device_declared V (map_of ?d) ex = Device_declared V (map_of item) ex" for ex
    by (rule Device_declared_cong) (simp add: map_of_filter_key)
  show ?thesis
    unfolding Device_model_validate_def pyval.case l filter_filter_declared
      Device_declared_extra [of _ _ "filter (\<lambda>(k, v). k \<notin> set Device_fields) item"]
    by (auto split: option.splits dest: Device_declared_Some)
qed

lemma Device_validate_extra:
  "Device_model_validate V (PDict item) = Inr c \<Longrightarrow>
     device_extra c = filter (\<lambda>(k, v). k \<notin> set Device_fields) item"
  unfolding Device_model_validate_def pyval.case
  by (auto split: option.splits dest: Device_declared_Some)

text \<open>
  C9. Fields outside the declared schema never make validation of a Component or of a
  Device fail and are never dropped: for every input mapping, validation succeeds exactly
  when it succeeds on the mapping restricted to the declared fields, and the validated
  record then differs from that of the restricted mapping only by carrying every undeclared
  field, with its value and in the input's order.
\<close>

theorem extra_fields_preserved:
  "isl (Component_model_validate V item) =
     isl (Component_model_validate V (filter (\<lambda>(k, v). k \<in> set Component_fields) item)) \<and>
   (Component_model_validate V item = Inr c \<longrightarrow>
      extra c = filter (\<lambda>(k, v). k \<notin> set Component_fields) item \<and>
      Component_model_validate V (filter (\<lambda>(k, v). k \<in> set Component_fields) item) =
        Inr (c\<lparr>extra := []\<rparr>)) \<and>
   isl (Device_model_validate V (PDict raw)) =
     isl (Device_model_validate V (PDict (filter (\<lambda>(k, v). k \<in> set Device_fields) raw))) \<and>
   (Device_model_validate V (PDict raw) = Inr d \<longrightarrow>
      device_extra d = filter (\<lambda>(k, v). k \<notin> set Device_fields) raw \<and>
      Device_model_validate V (PDict (filter (\<lambda>(k, v). k \<in> set Device_fields) raw)) =
        Inr (d\<lparr>device_extra := []\<rparr>))"
  by (simp add: Component_validate_declared_part Device_validate_declared_part
      Component_validate_extra Device_validate_extra split: sum.splits)

lemma accelerometer_item:
  "AList.update ''name'' (PStr ''accelerometer'') accelerometer_attrs =
     accelerometer_attrs @ [(''name'', PStr ''accelerometer'')]"
  by (simp add: accelerometer_attrs_def)

lemma validate_accelerometer:
  "Component_model_validate exact_validators
     (accelerometer_attrs @ [(''name'', PStr ''accelerometer'')]) = Inr accelerometer"
  by (simp add: Component_model_validate_def Component_declared_def required_def
      optional_float_def exact_validators_def accelerometer_attrs_def accelerometer_def
      Component_fields_def)

lemma validate_example_device:
  "Device_model_validate exact_validators (PDict example_device_config) = Inr example_device"
  by (simp add: Device_model_validate_def Device_declared_def required_def
      exact_validators_def example_device_config_def sequence_any_def Device_fields_def
      example_device_def)

theorem extra_fields_preserved_witness:
  "Component_model_validate exact_validators
     (accelerometer_attrs @ [(''name'', PStr ''accelerometer'')]) = Inr accelerometer \<and>
   extra accelerometer = [(''sensor_annotation'', PStr ''front'')] \<and>
   Component_model_validate exact_validators
     (filter (\<lambda>(k, v). k \<in> set Component_fields)
        (accelerometer_attrs @ [(''name'', PStr ''accelerometer'')])) =
     Inr (accelerometer\<lparr>extra := []\<rparr>) \<and>
   Device_model_validate exact_validators (PDict example_device_config) = Inr example_device \<and>
   device_extra example_device = [(''schema_version'', PStr ''2.0'')] \<and>
   Device_model_validate exact_validators
     (PDict (filter (\<lambda>(k, v). k \<in> set Device_fields) example_device_config)) =
     Inr (example_device\<lparr>device_extra := []\<rparr>)"
proof -
  note t = extra_fields_preserved [of exact_validators
      "accelerometer_attrs @ [(''name'', PStr ''accelerometer'')]" accelerometer
      example_device_config example_device]
  from t validate_accelerometer validate_example_device show ?thesis
    by (simp add: accelerometer_def example_device_def)
qed

subsection \<open>The generator of get_components\<close>

lemma collect_append:
  "collect f (xs @ ys) =
     (case collect f xs of
        Inl e \<Rightarrow> Inl e
      | Inr as \<Rightarrow> (case collect f ys of Inl e \<Rightarrow> Inl e | Inr bs \<Rightarrow> Inr (as @ bs)))"
  by (induction xs) (auto split: sum.splits)

lemma components_of_append:
  "components_of V fd (xs @ ys) =
     (case components_of V fd xs of
        Inl e \<Rightarrow> Inl e
      | Inr as \<Rightarrow> (case components_of V fd ys of Inl e \<Rightarrow> Inl e | Inr bs \<Rightarrow> Inr (as @ bs)))"
  by (induction xs) (auto split: sum.splits bool.splits)

lemma components_of_mappings_append:
  "components_of_mappings V fd (xs @ ys) =
     (case components_of_mappings V fd xs of
        Inl e \<Rightarrow> Inl e
      | Inr as \<Rightarrow>
          (case components_of_mappings V fd ys of Inl e \<Rightarrow> Inl e | Inr bs \<Rightarrow> Inr (as @ bs)))"
  by (induction xs) (auto split: sum.splits)

lemma map_of_name_update:
  "k \<noteq> ''name'' \<Longrightarrow> map_of (AList.update ''name'' v attrs) k = map_of attrs k"
  by (simp add: update_conv')

lemma components_of_skip:
  assumes "condition fd item = Inr False"
  shows "components_of V fd (xs @ item # ys) = components_of V fd (xs @ ys)"
  using assms by (simp add: components_of_append split: sum.splits)

lemma to_named_sequence_insert:
  "to_named_sequence (PDict (es1 @ (key, PDict attrs) # es2)) =
     (case collect (\<lambda>(key, v). name_mapping key v) es1 of
        Inl e \<Rightarrow> Inl e
      | Inr items1 \<Rightarrow>
          (case collect (\<lambda>(key, v). name_mapping key v) es2 of
             Inl e \<Rightarrow> Inl e
           | Inr items2 \<Rightarrow> Inr (items1 @ AList.update ''name'' (PStr key) attrs # items2)))"
  by (simp add: collect_append split: sum.splits)

lemma to_named_sequence_remove:
  "to_named_sequence (PDict (es1 @ es2)) =
     (case collect (\<lambda>(key, v). name_mapping key v) es1 of
        Inl e \<Rightarrow> Inl e
      | Inr items1 \<Rightarrow>
          (case collect (\<lambda>(key, v). name_mapping key v) es2 of
             Inl e \<Rightarrow> Inl e
           | Inr items2 \<Rightarrow> Inr (items1 @ items2)))"
  by (simp add: collect_append split: sum.splits)

lemma mapping_skip:
  assumes "map_of attrs ''odr'' = None"
  shows "components_of_mappings V fd (PDict (es1 @ (key, PDict attrs) # es2) # ms) =
         components_of_mappings V fd (PDict (es1 @ es2) # ms)"
proof -
  have "condition fd (AList.update ''name'' (PStr key) attrs) = Inr False"
    using assms by (simp add: condition_def map_of_name_update)
  then have "components_of V fd (xs @ AList.update ''name'' (PStr key) attrs # ys) =
             components_of V fd (xs @ ys)" for xs ys
    by (rule components_of_skip)
  then show ?thesis
    unfolding components_of_mappings.simps to_named_sequence_insert to_named_sequence_remove
    by (simp split: sum.splits)
qed

lemma mapping_raises:
  assumes "map_of attrs ''odr'' \<noteq> None" and "map_of attrs ''enable'' = None"
  shows "isl (components_of_mappings V True (PDict (es1 @ (key, PDict attrs) # es2) # ms))"
proof -
  have "condition True (AList.update ''name'' (PStr key) attrs) = Inl (KeyError ''enable'')"
    using assms by (simp add: condition_def map_of_name_update)
  then have r: "components_of V True (xs @ AList.update ''name'' (PStr key) attrs # ys) \<noteq> Inr cs"
    for xs ys cs
    by (simp add: components_of_append split: sum.splits)
  show ?thesis
    unfolding components_of_mappings.simps to_named_sequence_insert
    by (simp add: r split: sum.splits)
qed

lemma switched_off_item:
  "AList.update ''name'' (PStr ''accelerometer'') switched_off_attrs =
     switched_off_attrs @ [(''name'', PStr ''accelerometer'')]"
  by (simp add: switched_off_attrs_def accelerometer_attrs_def)

lemma lax_bool_false: "lax_bool (PStr ''false'') = Some False"
  by (simp add: lax_bool_def lower_def lower_char_def)

lemma condition_switched_off:
  "condition True (switched_off_attrs @ [(''name'', PStr ''accelerometer'')]) = Inr True"
  by (simp add: condition_def switched_off_attrs_def accelerometer_attrs_def)

lemma validate_switched_off:
  "Component_model_validate lax_bool_validators
     (switched_off_attrs @ [(''name'', PStr ''accelerometer'')]) =
     Inr (accelerometer\<lparr>enable := False\<rparr>)"
  by (simp add: Component_model_validate_def Component_declared_def required_def
      optional_float_def lax_bool_validators_def exact_validators_def lax_bool_false
      switched_off_attrs_def accelerometer_attrs_def accelerometer_def Component_fields_def)

text \<open>
  C3. \<^verbatim>\<open>get_components\<close> does not keep what its filter is for. The generator tests the
  truth value of the raw \<^verbatim>\<open>enable\<close> attribute (line 60), before validation, while the
  Component it returns carries the validated flag. The string \<^verbatim>\<open>"false"\<close> is true as a
  Python object and is read as \<^verbatim>\<open>False\<close> by the library's \<^verbatim>\<open>bool\<close> field: for an entry
  with that attribute, \<^verbatim>\<open>get_components\<close> with the default \<^verbatim>\<open>filter_disabled=True\<close>
  returns a Component whose \<^verbatim>\<open>enable\<close> is \<^verbatim>\<open>False\<close>, so a disabled component is included.
\<close>

theorem get_components_includes_disabled:
  "truthy (PStr ''false'') \<and>
   bool_field lax_bool_validators (PStr ''false'') = Some False \<and>
   get_components lax_bool_validators
     (example_device\<lparr>component_data :=
        [PDict [(''accelerometer'', PDict switched_off_attrs)]]\<rparr>) True =
     Inr [accelerometer\<lparr>enable := False\<rparr>] \<and>
   \<not> enable (accelerometer\<lparr>enable := False\<rparr>)"
proof -
  have 1: "bool_field lax_bool_validators (PStr ''false'') = Some False"
    by (simp add: lax_bool_validators_def lax_bool_false)
  have 2: "get_components lax_bool_validators
     (example_device\<lparr>component_data :=
        [PDict [(''accelerometer'', PDict switched_off_attrs)]]\<rparr>) True =
     Inr [accelerometer\<lparr>enable := False\<rparr>]"
    by (simp add: get_components_def switched_off_item condition_switched_off
        validate_switched_off)
  show ?thesis using 1 2 by simp
qed

text \<open>
  C10. If some entry of the component mapping has the key \<^verbatim>\<open>odr\<close> and lacks the key
  \<^verbatim>\<open>enable\<close>, then \<^verbatim>\<open>get_components\<close> with the default \<^verbatim>\<open>filter_disabled=True\<close> raises
  an error: it returns no sequence, so the entry is neither skipped nor included.
\<close>

theorem enable_missing_raises:
  assumes "component_data self = ms1 @ PDict (es1 @ (key, PDict attrs) # es2) # ms2"
      and "map_of attrs ''odr'' \<noteq> None"
      and "map_of attrs ''enable'' = None"
  shows "\<exists>e. get_components V self True = Inl e"
proof -
  define X where "X = components_of_mappings V True (PDict (es1 @ (key, PDict attrs) # es2) # ms2)"
  have "isl X" unfolding X_def by (rule mapping_raises [OF assms(2,3)])
  then have "isl (case components_of_mappings V True ms1 of
                    Inl e \<Rightarrow> Inl e
                  | Inr as \<Rightarrow> (case X of Inl e \<Rightarrow> Inl e | Inr bs \<Rightarrow> Inr (as @ bs)))"
    by (auto simp: isl_def split: sum.splits)
  then have "isl (get_components V self True)"
    unfolding get_components_def assms(1) components_of_mappings_append X_def .
  then show ?thesis by (simp add: isl_def)
qed


lemma gyroscope_item:
  "AList.update ''name'' (PStr ''gyroscope'') gyroscope_attrs =
     gyroscope_attrs @ [(''name'', PStr ''gyroscope'')]"
  by (simp add: gyroscope_attrs_def accelerometer_attrs_def)

lemma validate_gyroscope:
  "Component_model_validate exact_validators
     (gyroscope_attrs @ [(''name'', PStr ''gyroscope'')]) = Inr gyroscope"
  by (simp add: Component_model_validate_def Component_declared_def required_def
      optional_float_def exact_validators_def accelerometer_attrs_def accelerometer_def
      gyroscope_attrs_def gyroscope_def Component_fields_def)

lemma condition_accelerometer:
  "condition fd (accelerometer_attrs @ [(''name'', PStr ''accelerometer'')]) = Inr True"
  by (simp add: condition_def accelerometer_attrs_def)

lemma condition_gyroscope:
  "condition fd (gyroscope_attrs @ [(''name'', PStr ''gyroscope'')]) = Inr (\<not> fd)"
  by (simp add: condition_def gyroscope_attrs_def accelerometer_attrs_def)

lemma condition_board_info:
  "condition fd (AList.update ''name'' (PStr ''board_info'') board_info_attrs) = Inr False"
  by (simp add: condition_def board_info_attrs_def)

lemma get_components_example:
  "get_components exact_validators example_device True = Inr [accelerometer]"
  "get_components exact_validators example_device False = Inr [accelerometer, gyroscope]"
  by (simp_all add: get_components_def example_device_def example_components_def
      accelerometer_item gyroscope_item condition_accelerometer condition_gyroscope
      condition_board_info validate_accelerometer validate_gyroscope)

theorem enable_missing_raises_witness:
  "component_data (example_device\<lparr>component_data :=
       [PDict [(''magnetometer'', PDict magnetometer_attrs)]]\<rparr>) =
     [] @ PDict ([] @ (''magnetometer'', PDict magnetometer_attrs) # []) # [] \<and>
   map_of magnetometer_attrs ''odr'' \<noteq> None \<and>
   map_of magnetometer_attrs ''enable'' = None \<and>
   (\<exists>e. get_components exact_validators
          (example_device\<lparr>component_data :=
             [PDict [(''magnetometer'', PDict magnetometer_attrs)]]\<rparr>) True = Inl e) \<and>
   get_components exact_validators
     (example_device\<lparr>component_data :=
        [PDict [(''magnetometer'', PDict magnetometer_attrs)]]\<rparr>) True =
     Inl (KeyError ''enable'')"
proof -
  have 1: "component_data (example_device\<lparr>component_data :=
       [PDict [(''magnetometer'', PDict magnetometer_attrs)]]\<rparr>) =
     [] @ PDict ([] @ (''magnetometer'', PDict magnetometer_attrs) # []) # []" by simp
  have 2: "map_of magnetometer_attrs ''odr'' \<noteq> None" by (simp add: magnetometer_attrs_def)
  have 3: "map_of magnetometer_attrs ''enable'' = None" by (simp add: magnetometer_attrs_def)
  note 4 = enable_missing_raises [OF 1 2 3, of exact_validators]
  have 5: "get_components exact_validators
     (example_device\<lparr>component_data :=
        [PDict [(''magnetometer'', PDict magnetometer_attrs)]]\<rparr>) True =
     Inl (KeyError ''enable'')"
    by (simp add: get_components_def condition_def magnetometer_attrs_def)
  show ?thesis by (rule conjI [OF 1 conjI [OF 2 conjI [OF 3 conjI [OF 4 5]]]])
qed

section \<open>Properties of the Tag Range Reconstructor\<close>

text \<open>The pending start of a label when the loop starts with \<open>pending\<close>.\<close>

lemma events_of_Cons:
  "events_of l (e # es) = (if ev_label e = l then e # events_of l es else events_of l es)"
  by (simp add: events_of_def)

lemma tag_loop_stop_fails:
  assumes "ev_kind e = Stop"
      and "(case events_of (ev_label e) pre of
              [] \<Rightarrow> pending (ev_label e)
            | x # xs \<Rightarrow> if ev_kind (last (x # xs)) = Start then Some (ev_time (last (x # xs)))
                         else None) = None"
  shows "isl (tag_loop pending (pre @ e # post))"
  using assms
proof (induction pre arbitrary: pending)
  case Nil
  then show ?case by (simp add: events_of_def)
next
  case (Cons x pre)
  show ?case
  proof (cases "ev_kind x")
    case Start
    show ?thesis
    proof (cases "pending (ev_label x)")
      case (Some t)
      with Start show ?thesis by simp
    next
      case None
      have "isl (tag_loop (pending(ev_label x \<mapsto> ev_time x)) (pre @ e # post))"
        using Cons.prems Start
        by (intro Cons.IH) (auto simp: events_of_Cons split: list.splits if_splits)
      with Start None show ?thesis by simp
    qed
  next
    case Stop
    show ?thesis
    proof (cases "pending (ev_label x)")
      case None
      with Stop show ?thesis by simp
    next
      case (Some t)
      have "isl (tag_loop (pending(ev_label x := None)) (pre @ e # post))"
        using Cons.prems Stop
        by (intro Cons.IH) (auto simp: events_of_Cons split: list.splits if_splits)
      with Stop Some show ?thesis by (auto split: sum.splits)
    qed
  qed
qed

lemma tag_loop_start_fails:
  assumes "ev_kind e = Start"
      and "(case events_of (ev_label e) pre of
              [] \<Rightarrow> pending (ev_label e)
            | x # xs \<Rightarrow> if ev_kind (last (x # xs)) = Start then Some (ev_time (last (x # xs)))
                         else None) \<noteq> None"
  shows "isl (tag_loop pending (pre @ e # post))"
  using assms
proof (induction pre arbitrary: pending)
  case Nil
  then show ?case by (auto simp: events_of_def)
next
  case (Cons x pre)
  show ?case
  proof (cases "ev_kind x")
    case Start
    show ?thesis
    proof (cases "pending (ev_label x)")
      case (Some t)
      with Start show ?thesis by simp
    next
      case None
      have "isl (tag_loop (pending(ev_label x \<mapsto> ev_time x)) (pre @ e # post))"
        using Cons.prems Start
        by (intro Cons.IH) (auto simp: events_of_Cons split: list.splits if_splits)
      with Start None show ?thesis by simp
    qed
  next
    case Stop
    show ?thesis
    proof (cases "pending (ev_label x)")
      case None
      with Stop show ?thesis by simp
    next
      case (Some t)
      have "isl (tag_loop (pending(ev_label x := None)) (pre @ e # post))"
        using Cons.prems Stop
        by (intro Cons.IH) (auto simp: events_of_Cons split: list.splits if_splits)
      with Stop Some show ?thesis by (auto split: sum.splits)
    qed
  qed
qed


lemma tag_loop_succeeds:
  assumes "\<forall>l. alternates (pending l \<noteq> None) (map ev_kind (events_of l es))"
  shows "\<exists>rs. tag_loop pending es = Inr rs"
  using assms
proof (induction es arbitrary: pending)
  case Nil
  then show ?case by simp
next
  case (Cons e es)
  from Cons.prems have a0: "alternates (pending (ev_label e) \<noteq> None)
      (ev_kind e # map ev_kind (events_of (ev_label e) es))"
    by (auto simp: events_of_Cons dest: spec [of _ "ev_label e"])
  from Cons.prems have other: "l \<noteq> ev_label e \<Longrightarrow>
      alternates (pending l \<noteq> None) (map ev_kind (events_of l es))" for l
    by (auto simp: events_of_Cons dest: spec [of _ l])
  show ?case
  proof (cases "ev_kind e")
    case Start
    with a0 have n: "pending (ev_label e) = None"
      and a1: "alternates True (map ev_kind (events_of (ev_label e) es))"
      by (cases "pending (ev_label e)"; simp)+
    have "\<exists>rs. tag_loop (pending(ev_label e \<mapsto> ev_time e)) es = Inr rs"
      using a1 other by (intro Cons.IH) auto
    with Start n show ?thesis by simp
  next
    case Stop
    with a0 obtain t0 where n: "pending (ev_label e) = Some t0"
      and a1: "alternates False (map ev_kind (events_of (ev_label e) es))"
      by (cases "pending (ev_label e)"; simp)
    have "\<exists>rs. tag_loop (pending(ev_label e := None)) es = Inr rs"
      using a1 other by (intro Cons.IH) auto
    with Stop n show ?thesis by auto
  qed
qed

lemma tag_loop_pairs:
  assumes "tag_loop pending es = Inr rs"
  shows "map (\<lambda>r. (start_time r, end_time r)) (filter (\<lambda>r. label r = l) rs) =
           (case pending l of
              None \<Rightarrow> pairs (events_of l es)
            | Some t0 \<Rightarrow> (case events_of l es of [] \<Rightarrow> [] | x # xs \<Rightarrow> (t0, ev_time x) # pairs xs))"
  using assms
proof (induction es arbitrary: pending rs)
  case Nil
  then show ?case by (auto simp: events_of_def split: option.splits)
next
  case (Cons e es)
  show ?case
  proof (cases "ev_kind e")
    case Start
    with Cons.prems have n: "pending (ev_label e) = None"
      and r: "tag_loop (pending(ev_label e \<mapsto> ev_time e)) es = Inr rs"
      by (auto split: option.splits)
    from Cons.IH [OF r] n show ?thesis
      by (auto simp: events_of_Cons split: option.splits list.splits)
  next
    case Stop
    with Cons.prems obtain t0 rs' where n: "pending (ev_label e) = Some t0"
      and r: "tag_loop (pending(ev_label e := None)) es = Inr rs'"
      and rs: "rs = \<lparr>label = ev_label e, start_time = t0, end_time = ev_time e\<rparr> # rs'"
      by (auto split: option.splits sum.splits)
    from Cons.IH [OF r] n rs show ?thesis
      by (auto simp: events_of_Cons split: option.splits list.splits)
  qed
qed

lemma tag_loop_count:
  assumes "tag_loop pending es = Inr rs"
  shows "length (filter (\<lambda>r. label r = l) rs) =
         length (filter (\<lambda>e. ev_label e = l \<and> ev_kind e = Stop) es)"
  using assms
proof (induction es arbitrary: pending rs)
  case Nil
  then show ?case by simp
next
  case (Cons e es)
  show ?case
  proof (cases "ev_kind e")
    case Start
    with Cons.prems have r: "tag_loop (pending(ev_label e \<mapsto> ev_time e)) es = Inr rs"
      by (auto split: option.splits)
    from Cons.IH [OF r] Start show ?thesis by simp
  next
    case Stop
    with Cons.prems obtain t0 rs' where
      r: "tag_loop (pending(ev_label e := None)) es = Inr rs'"
      and rs: "rs = \<lparr>label = ev_label e, start_time = t0, end_time = ev_time e\<rparr> # rs'"
      by (auto split: option.splits sum.splits)
    from Cons.IH [OF r] rs Stop show ?thesis by simp
  qed
qed

lemma tag_loop_ordered:
  fixes es :: "('t::linorder) tag_event list"
  assumes "tag_loop pending es = Inr rs"
      and "sorted (map ev_time es)"
      and "\<And>l t0 e. pending l = Some t0 \<Longrightarrow> e \<in> set es \<Longrightarrow> t0 \<le> ev_time e"
  shows "list_all (\<lambda>r. start_time r \<le> end_time r) rs"
  using assms
proof (induction es arbitrary: pending rs)
  case Nil
  then show ?case by simp
next
  case (Cons e es)
  from Cons.prems(2) have s: "sorted (map ev_time es)"
    and le: "\<And>x. x \<in> set es \<Longrightarrow> ev_time e \<le> ev_time x" by auto
  show ?case
  proof (cases "ev_kind e")
    case Start
    with Cons.prems(1) have r: "tag_loop (pending(ev_label e \<mapsto> ev_time e)) es = Inr rs"
      by (auto split: option.splits)
    show ?thesis
    proof (rule Cons.IH [OF r s])
      fix l t0 x
      assume "(pending(ev_label e \<mapsto> ev_time e)) l = Some t0" "x \<in> set es"
      then show "t0 \<le> ev_time x"
        using le Cons.prems(3) [of l t0 x] by (auto split: if_splits)
    qed
  next
    case Stop
    with Cons.prems(1) obtain t0 rs' where n: "pending (ev_label e) = Some t0"
      and r: "tag_loop (pending(ev_label e := None)) es = Inr rs'"
      and rs: "rs = \<lparr>label = ev_label e, start_time = t0, end_time = ev_time e\<rparr> # rs'"
      by (auto split: option.splits sum.splits)
    have "list_all (\<lambda>r. start_time r \<le> end_time r) rs'"
    proof (rule Cons.IH [OF r s])
      fix l t1 x
      assume "(pending(ev_label e := None)) l = Some t1" "x \<in> set es"
      then show "t1 \<le> ev_time x"
        using Cons.prems(3) [of l t1 x] by (auto split: if_splits)
    qed
    moreover have "t0 \<le> ev_time e" using Cons.prems(3) [OF n, of e] by simp
    ultimately show ?thesis using rs by simp
  qed
qed

lemma well_formed_alternates:
  assumes "well_formed es"
  shows "alternates False (map ev_kind (events_of l es))"
proof (cases "l \<in> set (map ev_label es)")
  case True
  with assms show ?thesis by (auto simp: well_formed_def list_all_iff)
next
  case False
  then have "events_of l es = []" by (auto simp: events_of_def filter_empty_conv)
  then show ?thesis by simp
qed

text \<open>
  C6. The Tag Range Reconstructor fails on a stop event whose label has no pending start
  and on a start event whose label has a pending start, whatever precedes and follows the
  event; on the empty sequence it returns the empty sequence; and on every well-formed
  sequence (ordered by timestamp, each label's events alternating from a start) it
  returns, every range has \<open>start_time \<le> end_time\<close>, and the ranges of a label are, in
  order, the complete start/stop pairs of that label's events, one per stop event.
\<close>

theorem from_tag_events_contract:
  fixes es pre post :: "('t::linorder) tag_event list"
  shows
  "(ev_kind e = Stop \<and> pending_start (ev_label e) pre = None
      \<longrightarrow> isl (from_tag_events (pre @ e # post))) \<and>
   (ev_kind e = Start \<and> pending_start (ev_label e) pre \<noteq> None
      \<longrightarrow> isl (from_tag_events (pre @ e # post))) \<and>
   from_tag_events ([] :: 't tag_event list) = Inr [] \<and>
   (well_formed es \<longrightarrow>
      (\<exists>rs. from_tag_events es = Inr rs \<and>
         list_all (\<lambda>r. start_time r \<le> end_time r) rs \<and>
         map (\<lambda>r. (start_time r, end_time r)) (filter (\<lambda>r. label r = l) rs) =
           pairs (events_of l es) \<and>
         length (filter (\<lambda>r. label r = l) rs) =
           length (filter (\<lambda>e. ev_label e = l \<and> ev_kind e = Stop) es)))"
proof (intro conjI impI)
  assume "ev_kind e = Stop \<and> pending_start (ev_label e) pre = None"
  then show "isl (from_tag_events (pre @ e # post))"
    unfolding from_tag_events_def
    by (intro tag_loop_stop_fails) (auto simp: pending_start_def split: list.splits)
next
  assume "ev_kind e = Start \<and> pending_start (ev_label e) pre \<noteq> None"
  then show "isl (from_tag_events (pre @ e # post))"
    unfolding from_tag_events_def
    by (intro tag_loop_start_fails) (auto simp: pending_start_def split: list.splits)
next
  show "from_tag_events ([] :: 't tag_event list) = Inr []" by (simp add: from_tag_events_def)
next
  assume wf: "well_formed es"
  have "\<exists>rs. tag_loop Map.empty es = Inr rs"
    by (rule tag_loop_succeeds) (simp add: well_formed_alternates [OF wf])
  then obtain rs where rs: "tag_loop Map.empty es = Inr rs" ..
  have srt: "sorted (map ev_time es)" using wf by (simp add: well_formed_def)
  have "list_all (\<lambda>r. start_time r \<le> end_time r) rs"
    by (rule tag_loop_ordered [OF rs srt]) simp
  with rs tag_loop_pairs [OF rs, of l] tag_loop_count [OF rs, of l]
  show "\<exists>rs. from_tag_events es = Inr rs \<and>
         list_all (\<lambda>r. start_time r \<le> end_time r) rs \<and>
         map (\<lambda>r. (start_time r, end_time r)) (filter (\<lambda>r. label r = l) rs) =
           pairs (events_of l es) \<and>
         length (filter (\<lambda>r. label r = l) rs) =
           length (filter (\<lambda>e. ev_label e = l \<and> ev_kind e = Stop) es)"
    by (simp add: from_tag_events_def)
qed


lemma from_tag_events_walk:
  "from_tag_events walk_events =
     Inr [\<lparr>label = ''walk'', start_time = 0, end_time = 10\<rparr>,
          \<lparr>label = ''walk'', start_time = 20, end_time = 25\<rparr>]"
  by (simp add: from_tag_events_def walk_events_def)

lemma well_formed_walk: "well_formed walk_events"
  by (simp add: well_formed_def walk_events_def events_of_def)

theorem from_tag_events_contract_witness:
  "(ev_kind (TagEvent ''walk'' Stop (10::int)) = Stop \<and>
    pending_start (ev_label (TagEvent ''walk'' Stop (10::int))) [] = None) \<and>
   isl (from_tag_events ([] @ TagEvent ''walk'' Stop (10::int) # [])) \<and>
   (ev_kind (TagEvent ''walk'' Start (5::int)) = Start \<and>
    pending_start (ev_label (TagEvent ''walk'' Start (5::int))) [TagEvent ''walk'' Start 0]
      \<noteq> None) \<and>
   isl (from_tag_events ([TagEvent ''walk'' Start 0] @ TagEvent ''walk'' Start (5::int) # [])) \<and>
   well_formed walk_events \<and>
   from_tag_events walk_events =
     Inr [\<lparr>label = ''walk'', start_time = 0, end_time = 10\<rparr>,
          \<lparr>label = ''walk'', start_time = 20, end_time = 25\<rparr>] \<and>
   (\<exists>rs. from_tag_events walk_events = Inr rs \<and>
      list_all (\<lambda>r. start_time r \<le> end_time r) rs \<and>
      map (\<lambda>r. (start_time r, end_time r)) (filter (\<lambda>r. label r = ''walk'') rs) =
        pairs (events_of ''walk'' walk_events) \<and>
      length (filter (\<lambda>r. label r = ''walk'') rs) =
        length (filter (\<lambda>e. ev_label e = ''walk'' \<and> ev_kind e = Stop) walk_events))"
proof -
  have 1: "ev_kind (TagEvent ''walk'' Stop (10::int)) = Stop \<and>
    pending_start (ev_label (TagEvent ''walk'' Stop (10::int))) [] = None"
    by (simp add: pending_start_def events_of_def)
  note 2 = from_tag_events_contract [where e = "TagEvent ''walk'' Stop (10::int)"
      and pre = "[]" and post = "[]", THEN conjunct1, THEN mp, OF 1]
  have 3: "ev_kind (TagEvent ''walk'' Start (5::int)) = Start \<and>
    pending_start (ev_label (TagEvent ''walk'' Start (5::int))) [TagEvent ''walk'' Start 0]
      \<noteq> None"
    by (simp add: pending_start_def events_of_def)
  note 4 = from_tag_events_contract [where e = "TagEvent ''walk'' Start (5::int)"
      and pre = "[TagEvent ''walk'' Start 0]" and post = "[]",
      THEN conjunct2, THEN conjunct1, THEN mp, OF 3]
  note 5 = well_formed_walk
  note 6 = from_tag_events_walk
  note 7 = from_tag_events_contract [where es = walk_events and l = "''walk''",
      THEN conjunct2, THEN conjunct2, THEN conjunct2, THEN mp, OF 5]
  show ?thesis
    by (rule conjI [OF 1 conjI [OF 2 conjI [OF 3 conjI [OF 4 conjI [OF 5 conjI [OF 6 7]]]]]])
qed

section \<open>Properties of the Dataset Assembler\<close>






lemma renames_append: "renames (xs @ ys) = renames xs @ renames ys"
  by (induction xs rule: renames.induct) simp_all

lemma renames_map_Read: "renames (map Read cs) = []"
  by (induction cs) simp_all

lemma content_address_File_full:
  assumes "map_of d file = Some (File content)"
  shows "content_address subfolder file d =
           (case rename file (take 8 (file_id_of content) @ ''.csv'') d of
              Inl e \<Rightarrow> (map Read (chunks DIGEST_READ_BUFFER_LENGTH content) @ [Read []], Inl e)
            | Inr d' \<Rightarrow>
                (map Read (chunks DIGEST_READ_BUFFER_LENGTH content) @
                   [Read [], Rename (subfolder @ ''/'' @ file)
                               (subfolder @ ''/'' @ take 8 (file_id_of content) @ ''.csv'')],
                 Inr (file_id_of content, take 8 (file_id_of content) @ ''.csv'', d')))"
proof -
  have id: "lower (b32encode (digest content)) = file_id_of content"
    by (simp add: file_id_of_eq digest_def)
  show ?thesis
    using assms length_file_id_of [of content] file_id_of_tail [of content]
    by (simp add: content_address_def content_address_with_def read_loop_eq Let_def id
        endswith_def split: sum.splits)
qed

lemma content_address_result:
  assumes "content_address subfolder file d = (evs, Inr (fid, fname, d'))"
  shows "renames evs = [(subfolder @ ''/'' @ file, subfolder @ ''/'' @ fname)] \<and>
         length fid = 56 \<and> fname = take 8 fid @ ''.csv''"
proof -
  from assms have "snd (content_address subfolder file d) = Inr (fid, fname, d')" by simp
  from content_address_Inr [OF this] obtain content where
    c: "map_of d file = Some (File content)" "fid = file_id_of content"
       "fname = take 8 fid @ ''.csv''" by blast
  from assms show ?thesis
    unfolding content_address_File_full [OF c(1)] using c(2,3)
    by (auto simp: renames_append renames_map_Read length_file_id_of split: sum.splits)
qed

lemma process_files_Inr:
  assumes "process_files subfolder src dev ps d = (evs, d', Inr items)"
  shows "map (\<lambda>i. (class_label i, item_start_time i, item_end_time i)) items =
           map (\<lambda>(r, f). (label r, start_time r, end_time r)) ps \<and>
         renames evs =
           zip (map (\<lambda>(r, f). subfolder @ ''/'' @ f) ps)
               (map (\<lambda>i. relative_path (item_file i)) items) \<and>
         list_all (\<lambda>i. source i = src \<and> device i = dev \<and>
                     length (file_id (item_file i)) = 56 \<and>
                     relative_path (item_file i) =
                       subfolder @ ''/'' @ take 8 (file_id (item_file i)) @ ''.csv'') items"
  using assms
proof (induction ps arbitrary: d d' evs items)
  case Nil
  then show ?case by simp
next
  case (Cons p ps)
  obtain r f where p: "p = (r, f)" by (cases p)
  obtain evs1 res where ca: "content_address subfolder f d = (evs1, res)"
    by (cases "content_address subfolder f d")
  from Cons.prems p ca obtain fid fname d1 where res: "res = Inr (fid, fname, d1)"
    by (cases res) auto
  obtain evs2 d2 res2 where pf: "process_files subfolder src dev ps d1 = (evs2, d2, res2)"
    by (metis prod_cases3)
  from Cons.prems p ca res pf obtain items2 where
    r2: "res2 = Inr items2" and ev: "evs = evs1 @ evs2"
    and it: "items =
      \<lparr>class_label = label r, item_start_time = start_time r, item_end_time = end_time r,
        item_file = \<lparr>file_id = fid, relative_path = subfolder @ ''/'' @ fname,
                     mime_type = ''text/csv'', extension = ''csv''\<rparr>,
        source = src, device = dev\<rparr> # items2"
    by (cases res2) (auto simp: Let_def)
  from content_address_result [OF ca [unfolded res]]
  have c: "renames evs1 = [(subfolder @ ''/'' @ f, subfolder @ ''/'' @ fname)]"
    "length fid = 56" "fname = take 8 fid @ ''.csv''" by simp_all
  from Cons.IH [OF pf [unfolded r2]] c p ev it show ?case
    by (simp add: renames_append)
qed


lemma files_of_update_other:
  "sf \<noteq> subfolder \<Longrightarrow> files_of (AList.update sf n t) subfolder = files_of t subfolder"
  by (simp add: files_of_def update_conv')

lemma zip_filter_files:
  assumes "length fls = length rs"
  shows "map (\<lambda>(r, f). g r) (zip rs fls) = map g rs"
    and "map (\<lambda>(r, f). k f) (zip rs fls) = map k fls"
proof -
  have "map (\<lambda>(r, f). g r) (zip rs fls) = map g (map fst (zip rs fls))"
    by (simp add: case_prod_unfold)
  then show "map (\<lambda>(r, f). g r) (zip rs fls) = map g rs" using assms by simp
  have "map (\<lambda>(r, f). k f) (zip rs fls) = map k (map snd (zip rs fls))"
    by (simp add: case_prod_unfold)
  then show "map (\<lambda>(r, f). k f) (zip rs fls) = map k fls" using assms by simp
qed

lemma process_subfolders_Inr:
  assumes "process_subfolders tag_ranges src dev subfolders t = (evs, t', Inr items)"
      and "distinct subfolders"
  shows "map (\<lambda>i. (class_label i, item_start_time i, item_end_time i)) items =
           concat (map (\<lambda>sf. map (\<lambda>r. (label r, start_time r, end_time r))
                               (filter (\<lambda>r. label r = sf) tag_ranges)) subfolders) \<and>
         renames evs =
           zip (concat (map (files_of t) subfolders))
               (map (\<lambda>i. relative_path (item_file i)) items) \<and>
         list_all (\<lambda>sf. length (files_of t sf) =
                      length (filter (\<lambda>r. label r = sf) tag_ranges)) subfolders \<and>
         list_all (\<lambda>i. source i = src \<and> device i = dev \<and>
                     length (file_id (item_file i)) = 56 \<and>
                     relative_path (item_file i) =
                       class_label i @ ''/'' @ take 8 (file_id (item_file i)) @ ''.csv'') items"
  using assms
proof (induction subfolders arbitrary: t evs t' items)
  case Nil
  then show ?case by simp
next
  case (Cons sf rest)
  let ?rs = "filter (\<lambda>r. label r = sf) tag_ranges"
  from Cons.prems(1) obtain d where d: "map_of t sf = Some (Dir d)"
    by (auto split: option.splits node.splits)
  from Cons.prems(1) d have len: "length (listdir d) = length ?rs"
    by (auto simp: Let_def split: if_splits)
  from Cons.prems(1) d have csv: "list_all (\<lambda>file. endswith file ''.csv'') (listdir d)"
    by (auto simp: Let_def split: if_splits)
  obtain evs1 d1 res1 where pf:
    "process_files sf src dev (zip ?rs (listdir d)) d = (evs1, d1, res1)"
    by (metis prod_cases3)
  from Cons.prems(1) d len csv pf obtain items1 where r1: "res1 = Inr items1"
    by (cases res1) (auto simp: Let_def)
  obtain evs2 t2 res2 where ps:
    "process_subfolders tag_ranges src dev rest (AList.update sf (Dir d1) t) = (evs2, t2, res2)"
    by (metis prod_cases3)
  from Cons.prems(1) d len csv pf r1 ps obtain items2 where r2: "res2 = Inr items2"
    and ev: "evs = evs1 @ evs2" and it: "items = items1 @ items2"
    by (cases res2) (auto simp: Let_def)
  from Cons.prems(2) have dist: "distinct rest" and notin: "sf \<notin> set rest" by simp_all
  note ih = Cons.IH [OF ps [unfolded r2] dist]
  note p1 = process_files_Inr [OF pf [unfolded r1]]
  have fo: "files_of t sf = map (\<lambda>file. sf @ ''/'' @ file) (listdir d)"
    using d by (simp add: files_of_def)
  have fo2: "files_of (AList.update sf (Dir d1) t) z = files_of t z" if "z \<in> set rest" for z
  proof -
    from that notin have "sf \<noteq> z" by blast
    then show ?thesis by (rule files_of_update_other)
  qed
  have same: "map (files_of (AList.update sf (Dir d1) t)) rest = map (files_of t) rest"
    using fo2 by (simp cong: map_cong)
  have same2: "list_all (\<lambda>sf'. length (files_of (AList.update sf (Dir d1) t) sf') =
                      length (filter (\<lambda>r. label r = sf') tag_ranges)) rest =
               list_all (\<lambda>sf'. length (files_of t sf') =
                      length (filter (\<lambda>r. label r = sf') tag_ranges)) rest"
    using fo2 by (simp add: list_all_iff)
  have t1: "map (\<lambda>i. (class_label i, item_start_time i, item_end_time i)) items1 =
            map (\<lambda>r. (label r, start_time r, end_time r)) ?rs"
    using p1 by (simp add: zip_filter_files(1) [OF len])
  have n1: "renames evs1 = zip (files_of t sf) (map (\<lambda>i. relative_path (item_file i)) items1)"
    using p1 by (simp add: zip_filter_files(2) [OF len] fo)
  have l1: "length items1 = length (files_of t sf)"
    using arg_cong [OF t1, of length] len by (simp add: fo)
  have cl: "class_label i = sf" if "i \<in> set items1" for i
  proof -
    from that have "(class_label i, item_start_time i, item_end_time i) \<in>
        set (map (\<lambda>i. (class_label i, item_start_time i, item_end_time i)) items1)" by force
    then show ?thesis unfolding t1 by auto
  qed
  have s1: "list_all (\<lambda>i. source i = src \<and> device i = dev \<and>
                     length (file_id (item_file i)) = 56 \<and>
                     relative_path (item_file i) =
                       class_label i @ ''/'' @ take 8 (file_id (item_file i)) @ ''.csv'') items1"
    using p1 cl by (auto simp: list_all_iff)
  from ih t1 n1 l1 s1 show ?case
    unfolding same same2 ev it
    by (simp add: renames_append fo len)
qed

text \<open>
  C1. When \<^verbatim>\<open>assemble_metadata\<close> returns, on a directory whose listing has no repeated
  name, the manifest written has: as classes the set of labels; as data, subfolder by
  subfolder in listing order, one DataItem for each TagRange of that label, in the order
  of the ranges, with the class label, start time and end time of the range; as many
  files in each subfolder as ranges of its label; and the renames done are, in the same
  order, those of the listed files to the paths of the data items: the Nth range of a
  label is paired with the Nth listed file of its subfolder. Every item carries the shared
  source and device, an identifier of 56 characters and the path made of its label and the
  first 8 characters of the identifier.
\<close>

theorem assemble_pairs_positionally:
  assumes "snd (assemble_metadata M V h w) = Inr ()"
      and "distinct (listdir (tree w))"
  shows "\<exists>ds tag_events src dev tag_ranges.
           manifest (fst (assemble_metadata M V h w)) = Some ds \<and>
           prepare M V h = Inr (tag_events, src, dev) \<and>
           from_tag_events tag_events = Inr tag_ranges \<and>
           set (classes ds) = set (get_time_tags h) \<and>
           set (classes ds) = set (listdir (tree w)) \<and>
           map (\<lambda>i. (class_label i, item_start_time i, item_end_time i)) (data ds) =
             concat (map (\<lambda>sf. map (\<lambda>r. (label r, start_time r, end_time r))
                                 (filter (\<lambda>r. label r = sf) tag_ranges))
                       (listdir (tree w))) \<and>
           renames (trace (fst (assemble_metadata M V h w))) =
             renames (trace w) @
             zip (concat (map (files_of (tree w)) (listdir (tree w))))
                 (map (\<lambda>i. relative_path (item_file i)) (data ds)) \<and>
           list_all (\<lambda>sf. length (files_of (tree w) sf) =
                        length (filter (\<lambda>r. label r = sf) tag_ranges)) (listdir (tree w)) \<and>
           list_all (\<lambda>i. source i = src \<and> device i = dev \<and>
                       length (file_id (item_file i)) = 56 \<and>
                       relative_path (item_file i) =
                         class_label i @ ''/'' @ take 8 (file_id (item_file i)) @ ''.csv'')
             (data ds)"
proof -
  from assms(1) obtain tes s dv where p: "prepare M V h = Inr (tes, s, dv)"
    by (cases "prepare M V h") (auto simp: assemble_metadata_def)
  from assms(1) p have tags: "set (listdir (tree w)) = set (get_time_tags h)"
    by (auto simp: assemble_metadata_def Let_def split: if_splits)
  from assms(1) p have dirs: "list_all (is_dir (tree w)) (listdir (tree w))"
    by (auto simp: assemble_metadata_def Let_def split: if_splits)
  from assms(1) p tags dirs obtain rs where f: "from_tag_events tes = Inr rs"
    by (cases "from_tag_events tes") (auto simp: assemble_metadata_def Let_def)
  obtain evs t' res where ps:
    "process_subfolders rs s dv (listdir (tree w)) (tree w) = (evs, t', res)"
    by (metis prod_cases3)
  from assms(1) p tags dirs f ps obtain items where r: "res = Inr items"
    by (cases res) (auto simp: assemble_metadata_def Let_def)
  let ?ds = "\<lparr>dataset_name = ''my converted dataset'',
              description = ''My dataset description'',
              dataset_id = lower (new_ulid h), classes = remdups (get_time_tags h),
              data = items, metadata = []\<rparr>"
  from assms(1) p tags dirs f ps r have
    w': "fst (assemble_metadata M V h w) =
           w\<lparr>tree := t', trace := trace w @ evs, manifest := Some ?ds\<rparr>"
    by (auto simp: assemble_metadata_def Let_def split: option.splits node.splits)
  note c = process_subfolders_Inr [OF ps [unfolded r] assms(2)]
  show ?thesis
    apply (rule exI [of _ ?ds], rule exI [of _ tes], rule exI [of _ s], rule exI [of _ dv],
        rule exI [of _ rs])
    using p f tags c by (simp add: w' renames_append)
qed


lemma prepare_example:
  "prepare example_models exact_validators example_hsd =
     Inr (walk_events, example_source, ([accelerometer], 14, 7))"
proof -
  have b: "board_id example_device = 14" "fw_id example_device = 7"
    by (simp_all add: example_device_def)
  show ?thesis
    by (simp add: prepare_def example_models_def example_hsd_def validate_example_device
        get_components_example example_source_def b)
qed

lemma lower_ulid: "lower ''01ARZ3NDEKTSV4RRFFQ69G5FAV'' = ''01arz3ndektsv4rrffq69g5fav''"
  by (simp add: lower_def lower_char_def)


lemma chunks_single: "chunks DIGEST_READ_BUFFER_LENGTH [b] = [[b]]"
  by (subst chunks.simps) (simp add: DIGEST_READ_BUFFER_LENGTH_def chunks_Nil)

lemma scenario_A_run:
  assumes id0: "file_id_of [] = ''4oymiquy7qobjgx36tejs35zeqt24qpemsnzgtfeswmrw6csxbkq====''"
      and id1: "file_id_of [0x61] = ''zklycewkdo64v6wcggzzui64jwtyn37ycr6e44vzqb3yll7ojc5q====''"
  shows "assemble_metadata example_models exact_validators example_hsd scenario_A =
           (\<lparr>tree = [(''walk'', Dir [(''4oymiquy.csv'', File []),
                                     (''zklycewk.csv'', File [0x61])])],
             manifest = Some scenario_A_dataset,
             trace = [Read [], Rename ''walk/0.csv'' ''walk/4oymiquy.csv'',
                      Read [0x61], Read [], Rename ''walk/1.csv'' ''walk/zklycewk.csv'']\<rparr>,
            Inr ())"
proof -
  let ?dA = "[(''0.csv'', File []), (''1.csv'', File [0x61])]"
  let ?d1 = "[(''1.csv'', File [0x61]), (''4oymiquy.csv'', File [])]"
  let ?d2 = "[(''4oymiquy.csv'', File []), (''zklycewk.csv'', File [0x61])]"
  have m0: "map_of ?dA ''0.csv'' = Some (File [])" by simp
  have m1: "map_of ?d1 ''1.csv'' = Some (File [0x61])" by simp
  have ca0: "content_address ''walk'' ''0.csv'' ?dA =
      ([Read [], Rename ''walk/0.csv'' ''walk/4oymiquy.csv''],
       Inr (''4oymiquy7qobjgx36tejs35zeqt24qpemsnzgtfeswmrw6csxbkq===='', ''4oymiquy.csv'', ?d1))"
    unfolding content_address_File_full [OF m0] id0
    by (simp add: rename_def chunks_Nil)
  have ca1: "content_address ''walk'' ''1.csv'' ?d1 =
      ([Read [0x61], Read [], Rename ''walk/1.csv'' ''walk/zklycewk.csv''],
       Inr (''zklycewkdo64v6wcggzzui64jwtyn37ycr6e44vzqb3yll7ojc5q===='', ''zklycewk.csv'', ?d2))"
    unfolding content_address_File_full [OF m1] id1
    by (simp add: rename_def chunks_single)
  have pf: "process_files ''walk'' example_source ([accelerometer], 14::int, 7::int)
      [(\<lparr>label = ''walk'', start_time = 0::int, end_time = 10\<rparr>, ''0.csv''),
       (\<lparr>label = ''walk'', start_time = 20, end_time = 25\<rparr>, ''1.csv'')] ?dA =
      ([Read [], Rename ''walk/0.csv'' ''walk/4oymiquy.csv'',
        Read [0x61], Read [], Rename ''walk/1.csv'' ''walk/zklycewk.csv''],
       ?d2, Inr (data scenario_A_dataset))"
    by (simp add: ca0 ca1 scenario_A_dataset_def)
  have ps: "process_subfolders
      [\<lparr>label = ''walk'', start_time = 0::int, end_time = 10\<rparr>,
       \<lparr>label = ''walk'', start_time = 20, end_time = 25\<rparr>]
      example_source ([accelerometer], 14::int, 7::int) [''walk''] (tree scenario_A) =
      ([Read [], Rename ''walk/0.csv'' ''walk/4oymiquy.csv'',
        Read [0x61], Read [], Rename ''walk/1.csv'' ''walk/zklycewk.csv''],
       [(''walk'', Dir ?d2)], Inr (data scenario_A_dataset))"
    by (simp add: scenario_A_def listdir_def endswith_def Let_def pf
        del: process_files.simps)
  have tg: "get_time_tags example_hsd = [''walk'', ''walk'']" by (simp add: example_hsd_def)
  have ul: "lower (new_ulid example_hsd) = ''01arz3ndektsv4rrffq69g5fav''"
    by (simp add: example_hsd_def lower_ulid)
  have ld: "listdir (tree scenario_A) = [''walk'']" by (simp add: scenario_A_def listdir_def)
  have dr: "is_dir (tree scenario_A) ''walk''" by (simp add: scenario_A_def is_dir_def)
  have ds: "\<lparr>dataset_name = ''my converted dataset'',
             description = ''My dataset description'',
             dataset_id = ''01arz3ndektsv4rrffq69g5fav'', classes = [''walk''],
             data = data scenario_A_dataset, metadata = []\<rparr> = scenario_A_dataset"
    by (simp add: scenario_A_dataset_def)
  have tr: "trace scenario_A = []" by (simp add: scenario_A_def)
  have "assemble_metadata example_models exact_validators example_hsd scenario_A =
      (scenario_A\<lparr>tree := [(''walk'', Dir ?d2)],
         trace := [Read [], Rename ''walk/0.csv'' ''walk/4oymiquy.csv'',
                   Read [0x61], Read [], Rename ''walk/1.csv'' ''walk/zklycewk.csv''],
         manifest := Some scenario_A_dataset\<rparr>, Inr ())"
    by (simp add: assemble_metadata_def prepare_example from_tag_events_walk tg ul ld dr ps
        Let_def ds tr del: process_subfolders.simps)
  then show ?thesis by (simp add: scenario_A_def)
qed

section \<open>The Content Addresser on the empty file\<close>

lemma file_id_of_empty:
  "file_id_of [] = ''4oymiquy7qobjgx36tejs35zeqt24qpemsnzgtfeswmrw6csxbkq====''"
  by code_simp

theorem content_address_idempotent_witness:
  "(map_of [(''4oymiquy.csv'', File [])] ''4oymiquy.csv'' = Some (File []) \<and>
    ''4oymiquy.csv'' = take 8 (file_id_of []) @ ''.csv'') \<and>
   snd (content_address ''walk'' ''a.csv'' [(''a.csv'', File [])]) =
     Inr (''4oymiquy7qobjgx36tejs35zeqt24qpemsnzgtfeswmrw6csxbkq===='', ''4oymiquy.csv'',
          [(''4oymiquy.csv'', File [])]) \<and>
   snd (content_address ''walk'' ''4oymiquy.csv'' [(''4oymiquy.csv'', File [])]) =
     Inr (''4oymiquy7qobjgx36tejs35zeqt24qpemsnzgtfeswmrw6csxbkq===='', ''4oymiquy.csv'',
          [(''4oymiquy.csv'', File [])])"
proof -
  have 1: "map_of [(''4oymiquy.csv'', File [])] ''4oymiquy.csv'' = Some (File []) \<and>
    ''4oymiquy.csv'' = take 8 (file_id_of []) @ ''.csv''"
    by (simp add: file_id_of_empty)
  have m: "map_of [(''a.csv'', File [])] ''a.csv'' = Some (File [])" by simp
  have 2: "snd (content_address ''walk'' ''a.csv'' [(''a.csv'', File [])]) =
     Inr (''4oymiquy7qobjgx36tejs35zeqt24qpemsnzgtfeswmrw6csxbkq===='', ''4oymiquy.csv'',
          [(''4oymiquy.csv'', File [])])"
    unfolding content_address_File [OF m] file_id_of_empty by (simp add: rename_def)
  note 3 = content_address_idempotent [THEN conjunct2, THEN mp, OF 2]
  show ?thesis by (rule conjI [OF 1 conjI [OF 2 3]])
qed

theorem rename_after_digest_validated_witness:
  "content_address_with digest ''walk'' ''a.csv'' [(''a.csv'', File [])] =
     ([Read [], Rename ''walk/a.csv'' ''walk/4oymiquy.csv''],
      Inr (''4oymiquy7qobjgx36tejs35zeqt24qpemsnzgtfeswmrw6csxbkq===='', ''4oymiquy.csv'',
           [(''4oymiquy.csv'', File [])])) \<and>
   [Read [], Rename ''walk/a.csv'' ''walk/4oymiquy.csv''] =
     [Read []] @ Rename ''walk/a.csv'' ''walk/4oymiquy.csv'' # [] \<and>
   (\<exists>content.
      map_of [(''a.csv'', File [])] ''a.csv'' = Some (File content) \<and>
      [Read []] = map Read (chunks DIGEST_READ_BUFFER_LENGTH content) @ [Read []] \<and>
      bytes_read [Read []] = content \<and>
      length (lower (b32encode (digest content))) = 56 \<and>
      endswith (lower (b32encode (digest content))) ''===='' \<and>
      ''walk/a.csv'' = ''walk'' @ ''/'' @ ''a.csv'' \<and>
      ''walk/4oymiquy.csv'' =
        ''walk'' @ ''/'' @ take 8 (lower (b32encode (digest content))) @ ''.csv'' \<and>
      [] = ([] :: event list))"
proof -
  have id: "lower (b32encode (digest [])) =
      ''4oymiquy7qobjgx36tejs35zeqt24qpemsnzgtfeswmrw6csxbkq====''"
    using file_id_of_empty by (simp add: file_id_of_eq digest_def)
  have 1: "content_address_with digest ''walk'' ''a.csv'' [(''a.csv'', File [])] =
     ([Read [], Rename ''walk/a.csv'' ''walk/4oymiquy.csv''],
      Inr (''4oymiquy7qobjgx36tejs35zeqt24qpemsnzgtfeswmrw6csxbkq===='', ''4oymiquy.csv'',
           [(''4oymiquy.csv'', File [])]))"
    by (simp add: content_address_with_def read_loop_eq chunks_Nil id endswith_def rename_def
        Let_def)
  have 2: "[Read [], Rename ''walk/a.csv'' ''walk/4oymiquy.csv''] =
     [Read []] @ Rename ''walk/a.csv'' ''walk/4oymiquy.csv'' # []" by simp
  note 3 = rename_after_digest_validated [OF 1 2]
  show ?thesis by (rule conjI [OF 1 conjI [OF 2 3]])
qed

section \<open>Scenario A\<close>

lemma file_id_of_a:
  "file_id_of [0x61] = ''zklycewkdo64v6wcggzzui64jwtyn37ycr6e44vzqb3yll7ojc5q====''"
  by code_simp

theorem assemble_pairs_positionally_witness:
  "snd (assemble_metadata example_models exact_validators example_hsd scenario_A) = Inr () \<and>
   distinct (listdir (tree scenario_A)) \<and>
   fst (assemble_metadata example_models exact_validators example_hsd scenario_A) =
     \<lparr>tree = [(''walk'', Dir [(''4oymiquy.csv'', File []), (''zklycewk.csv'', File [0x61])])],
      manifest = Some scenario_A_dataset,
      trace = [Read [], Rename ''walk/0.csv'' ''walk/4oymiquy.csv'',
               Read [0x61], Read [], Rename ''walk/1.csv'' ''walk/zklycewk.csv'']\<rparr> \<and>
   map (\<lambda>i. (class_label i, item_start_time i, item_end_time i)) (data scenario_A_dataset) =
     [(''walk'', 0, 10), (''walk'', 20, 25)] \<and>
   set (classes scenario_A_dataset) = {''walk''} \<and>
   (\<exists>ds tag_events src dev tag_ranges.
      manifest (fst (assemble_metadata example_models exact_validators example_hsd scenario_A)) =
        Some ds \<and>
      prepare example_models exact_validators example_hsd = Inr (tag_events, src, dev) \<and>
      from_tag_events tag_events = Inr tag_ranges \<and>
      set (classes ds) = set (get_time_tags example_hsd) \<and>
      set (classes ds) = set (listdir (tree scenario_A)) \<and>
      map (\<lambda>i. (class_label i, item_start_time i, item_end_time i)) (data ds) =
        concat (map (\<lambda>sf. map (\<lambda>r. (label r, start_time r, end_time r))
                            (filter (\<lambda>r. label r = sf) tag_ranges))
                  (listdir (tree scenario_A))) \<and>
      renames (trace (fst (assemble_metadata example_models exact_validators example_hsd
                             scenario_A))) =
        renames (trace scenario_A) @
        zip (concat (map (files_of (tree scenario_A)) (listdir (tree scenario_A))))
            (map (\<lambda>i. relative_path (item_file i)) (data ds)) \<and>
      list_all (\<lambda>sf. length (files_of (tree scenario_A) sf) =
                   length (filter (\<lambda>r. label r = sf) tag_ranges))
        (listdir (tree scenario_A)) \<and>
      list_all (\<lambda>i. source i = src \<and> device i = dev \<and>
                  length (file_id (item_file i)) = 56 \<and>
                  relative_path (item_file i) =
                    class_label i @ ''/'' @ take 8 (file_id (item_file i)) @ ''.csv'')
        (data ds))"
proof -
  note run = scenario_A_run [OF file_id_of_empty file_id_of_a]
  have 1: "snd (assemble_metadata example_models exact_validators example_hsd scenario_A) =
      Inr ()" by (simp add: run)
  have 2: "distinct (listdir (tree scenario_A))" by (simp add: scenario_A_def listdir_def)
  have 3: "fst (assemble_metadata example_models exact_validators example_hsd scenario_A) =
     \<lparr>tree = [(''walk'', Dir [(''4oymiquy.csv'', File []), (''zklycewk.csv'', File [0x61])])],
      manifest = Some scenario_A_dataset,
      trace = [Read [], Rename ''walk/0.csv'' ''walk/4oymiquy.csv'',
               Read [0x61], Read [], Rename ''walk/1.csv'' ''walk/zklycewk.csv'']\<rparr>"
    by (simp add: run)
  have 4: "map (\<lambda>i. (class_label i, item_start_time i, item_end_time i))
             (data scenario_A_dataset) = [(''walk'', 0, 10), (''walk'', 20, 25)]"
    by (simp add: scenario_A_dataset_def)
  have 5: "set (classes scenario_A_dataset) = {''walk''}"
    by (simp add: scenario_A_dataset_def)
  note 6 = assemble_pairs_positionally [OF 1 2]
  show ?thesis
    by (rule conjI [OF 1 conjI [OF 2 conjI [OF 3 conjI [OF 4 conjI [OF 5 6]]]]])
qed

end
